theory Spec2Isabelle
  imports Main "HOL-Library.While_Combinator" "HOL-Library.Log_Nat"
begin

section \<open>Binary tree addressing\<close>

text \<open>
  The query engines of SpatialCL walk an implicit binary tree. A node is named by a key
  \<open>(level, local_node_id)\<close>: level 0 holds the root, the deepest level
  \<open>effective_num_levels - 1\<close> holds the particles, and \<open>local_node_id\<close> counts the nodes of
  a level from the left. The kernels compute with \<open>uint\<close> and \<open>ulong\<close>; this development
  is about trees whose padded particle count \<open>2 ^ (effective_num_levels - 1)\<close> fits a
  \<open>ulong\<close>. There the keys and the coverage counter of a depth-first query stay within
  that count (see \<open>dfs_inv\<close> below), as do the keys of a breadth-first query whose
  selector keeps to the candidates it is offered (see \<open>bfs_inv\<close> below), and the live
  count of every breadth-first query stays within the capacity; they are modelled as
  natural numbers. A breadth-first selector that does not keep to its candidates makes
  the kernel compute with storage it never wrote; the model takes such storage to hold
  ids that the kernel doubles without wrapping.

  The header \<open>tree/binary_tree.hpp\<close> that declares the key and its helper functions is
  not among the sources; the helpers are therefore taken from the specification.
\<close>

record binary_tree_key_t =
  level :: nat
  local_node_id :: nat

text \<open>Modelled from the spec: \<open>binary_tree_key_init\<close> of \<open>binary_tree.hpp\<close>, which
  fills a key with a level and a local node id.\<close>

definition binary_tree_key_init :: "nat \<Rightarrow> nat \<Rightarrow> binary_tree_key_t" where
  "binary_tree_key_init lvl lnid = \<lparr>level = lvl, local_node_id = lnid\<rparr>"

text \<open>Modelled from the spec: \<open>BT_LOCAL_NODE_ID_OF_LEFT_CHILD\<close> of \<open>binary_tree.hpp\<close>;
  the left child has local id \<open>local_id * 2\<close>.\<close>

definition BT_LOCAL_NODE_ID_OF_LEFT_CHILD :: "nat \<Rightarrow> nat" where
  "BT_LOCAL_NODE_ID_OF_LEFT_CHILD lnid = lnid * 2"

text \<open>Modelled from the spec: \<open>binary_tree_get_children_begin\<close> of \<open>binary_tree.hpp\<close>
  (\<open>local_id * 2\<close> at \<open>level + 1\<close>).\<close>

definition binary_tree_get_children_begin :: "binary_tree_key_t \<Rightarrow> binary_tree_key_t" where
  "binary_tree_get_children_begin node =
     \<lparr>level = level node + 1,
      local_node_id = BT_LOCAL_NODE_ID_OF_LEFT_CHILD (local_node_id node)\<rparr>"

text \<open>Modelled from the spec: \<open>binary_tree_get_children_last\<close> of \<open>binary_tree.hpp\<close>
  (\<open>local_id * 2 + 1\<close> at \<open>level + 1\<close>).\<close>

definition binary_tree_get_children_last :: "binary_tree_key_t \<Rightarrow> binary_tree_key_t" where
  "binary_tree_get_children_last node =
     \<lparr>level = level node + 1,
      local_node_id = BT_LOCAL_NODE_ID_OF_LEFT_CHILD (local_node_id node) + 1\<rparr>"

text \<open>Modelled from the spec: \<open>binary_tree_is_right_child\<close> of \<open>binary_tree.hpp\<close>
  (the local id is odd).\<close>

definition binary_tree_is_right_child :: "binary_tree_key_t \<Rightarrow> bool" where
  "binary_tree_is_right_child node = odd (local_node_id node)"

text \<open>Modelled from the spec: \<open>binary_tree_get_parent\<close> of \<open>binary_tree.hpp\<close>
  (\<open>level - 1\<close>, \<open>local_id / 2\<close> under integer division). The root has no parent; on
  naturals \<open>0 - 1 = 0\<close>, and the engines ask for the parent of right children only.\<close>

definition binary_tree_get_parent :: "binary_tree_key_t \<Rightarrow> binary_tree_key_t" where
  "binary_tree_get_parent node =
     \<lparr>level = level node - 1, local_node_id = local_node_id node div 2\<rparr>"

text \<open>Modelled from the spec: \<open>BT_LEAVES_PER_NODE\<close> of \<open>binary_tree.hpp\<close>, the number
  \<open>2 ^ (levels - 1 - level)\<close> of particle slots below a node.\<close>

definition BT_LEAVES_PER_NODE :: "nat \<Rightarrow> nat \<Rightarrow> nat" where
  "BT_LEAVES_PER_NODE lvl num_levels = 2 ^ (num_levels - 1 - lvl)"

text \<open>Modelled from the spec: \<open>binary_tree_is_node_used\<close> of \<open>binary_tree.hpp\<close>: the
  leftmost descendant particle index \<open>local_id * 2 ^ (levels - 1 - level)\<close> is below the
  true particle count.\<close>

definition binary_tree_is_node_used :: "binary_tree_key_t \<Rightarrow> nat \<Rightarrow> nat \<Rightarrow> bool" where
  "binary_tree_is_node_used node num_levels num_particles =
     (local_node_id node * BT_LEAVES_PER_NODE (level node) num_levels < num_particles)"

text \<open>A node \<open>m\<close> lies \<open>d\<close> levels below \<open>node\<close> when climbing \<open>d\<close> times from \<open>m\<close>
  to the parent arrives at \<open>node\<close>.\<close>

definition is_descendant :: "nat \<Rightarrow> binary_tree_key_t \<Rightarrow> binary_tree_key_t \<Rightarrow> bool" where
  "is_descendant d m node =
     (level m = level node + d \<and> (binary_tree_get_parent ^^ d) m = node)"

text \<open>Modelled from the spec: \<open>get_effective_num_levels\<close> of the tree type, which is
  not among the sources: \<open>effective_num_levels = ceil (log2 N) + 1\<close>.\<close>

definition get_effective_num_levels :: "nat \<Rightarrow> nat" where
  "get_effective_num_levels num_particles = ceillog2 num_particles + 1"

text \<open>Modelled from the spec: \<open>get_effective_num_particles\<close> of the tree type,
  \<open>effective_num_particles = 2 ^ (effective_num_levels - 1)\<close>.\<close>

definition get_effective_num_particles :: "nat \<Rightarrow> nat" where
  "get_effective_num_particles num_particles = 2 ^ (get_effective_num_levels num_particles - 1)"

section \<open>Depth-first query engine\<close>

text \<open>
  The kernel \<open>query\<close> of \<open>depth_first\<close> keeps one cursor \<open>current_node\<close> and the counter
  \<open>num_covered_particles\<close>. What a query does to the outside world is the sequence of its
  calls into the handler and of its loads from the tree buffers; the model records that
  sequence, oldest event first. The handler is any deterministic collaborator: its answers
  may depend on everything the query has shown it so far, so a selector takes the events up
  to its call. The index \<open>node_idx\<close> and the two values passed to the node selector are
  functions of the key and of the read-only buffers; the events carry the key.
\<close>

datatype depth_first_iteration_strategy =
    HIERARCHICAL_ITERATION_STRICT
  | HIERARCHICAL_ITERATION_RELAXED

datatype dfs_event =
    Dfs_at_query_init
  | Dfs_load_node binary_tree_key_t
  | Dfs_node_selector binary_tree_key_t bool
  | Dfs_unique_node_discard_event binary_tree_key_t
  | Dfs_load_particle nat
  | Dfs_particle_processor nat bool
  | Dfs_at_query_exit

text \<open>
  The handler module is not among the sources: its two selectors are parameters of the
  model. \<open>at_query_init\<close>, \<open>at_query_exit\<close> and \<open>dfs_unique_node_discard_event\<close> return
  nothing to the engine and appear as events only. The kernel runs one such query for each
  query id it serves; the queries share no state, and the model is of one of them.
\<close>

record dfs_handler =
  dfs_node_selector :: "dfs_event list \<Rightarrow> binary_tree_key_t \<Rightarrow> bool"
  dfs_particle_processor :: "dfs_event list \<Rightarrow> nat \<Rightarrow> bool"

record dfs_state =
  current_node :: binary_tree_key_t
  num_covered_particles :: nat
  dfs_trace :: "dfs_event list"

text \<open>The loop of \<open>find_first_left_parent\<close>: climb while the result is a right child.\<close>

function find_first_left_parent_while :: "binary_tree_key_t \<Rightarrow> binary_tree_key_t" where
  "find_first_left_parent_while result =
     (if binary_tree_is_right_child result
      then find_first_left_parent_while (binary_tree_get_parent result)
      else result)"
  by pat_completeness auto
termination
  by (relation "measure local_node_id")
    (auto simp: binary_tree_is_right_child_def binary_tree_get_parent_def elim: oddE)

declare find_first_left_parent_while.simps [simp del]

definition find_first_left_parent :: "binary_tree_key_t \<Rightarrow> binary_tree_key_t" where
  "find_first_left_parent node = find_first_left_parent_while (binary_tree_get_parent node)"

text \<open>The macro \<open>NEXT_PARENT\<close>, chosen by \<open>Iteration_strategy\<close>.\<close>

fun NEXT_PARENT :: "depth_first_iteration_strategy \<Rightarrow> binary_tree_key_t \<Rightarrow> binary_tree_key_t" where
  "NEXT_PARENT HIERARCHICAL_ITERATION_STRICT node = find_first_left_parent node"
| "NEXT_PARENT HIERARCHICAL_ITERATION_RELAXED node = binary_tree_get_parent node"

text \<open>
  The move after a rejection, written out in both \<open>QUERY_NODE_LEVEL\<close> and
  \<open>QUERY_PARTICLE_LEVEL\<close>: from a right child go to \<open>NEXT_PARENT\<close> and then one to the
  right, from a left child go to the sibling.
\<close>

definition next_after_rejection ::
  "depth_first_iteration_strategy \<Rightarrow> binary_tree_key_t \<Rightarrow> binary_tree_key_t" where
  "next_after_rejection strategy node =
     (if binary_tree_is_right_child node
      then (let up = NEXT_PARENT strategy node in up\<lparr>local_node_id := local_node_id up + 1\<rparr>)
      else node\<lparr>local_node_id := local_node_id node + 1\<rparr>)"

definition QUERY_NODE_LEVEL ::
  "dfs_handler \<Rightarrow> depth_first_iteration_strategy \<Rightarrow> nat \<Rightarrow> dfs_state \<Rightarrow> dfs_state" where
  "QUERY_NODE_LEVEL h strategy effective_num_levels s =
     (let node = current_node s;
          loaded = dfs_trace s @ [Dfs_load_node node];
          node_selected = dfs_node_selector h loaded node;
          asked = loaded @ [Dfs_node_selector node node_selected]
      in if node_selected
         then s\<lparr>current_node := binary_tree_get_children_begin node, dfs_trace := asked\<rparr>
         else s\<lparr>current_node := next_after_rejection strategy node,
                num_covered_particles :=
                  num_covered_particles s + BT_LEAVES_PER_NODE (level node) effective_num_levels,
                dfs_trace := asked @ [Dfs_unique_node_discard_event node]\<rparr>)"

definition QUERY_PARTICLE_LEVEL ::
  "dfs_handler \<Rightarrow> depth_first_iteration_strategy \<Rightarrow> dfs_state \<Rightarrow> dfs_state" where
  "QUERY_PARTICLE_LEVEL h strategy s =
     (let node = current_node s;
          particle_idx = local_node_id node;
          loaded = dfs_trace s @ [Dfs_load_particle particle_idx];
          particle_selected = dfs_particle_processor h loaded particle_idx
      in s\<lparr>current_node :=
              (if particle_selected then node\<lparr>local_node_id := local_node_id node + 1\<rparr>
               else next_after_rejection strategy node),
            num_covered_particles := num_covered_particles s + 1,
            dfs_trace := loaded @ [Dfs_particle_processor particle_idx particle_selected]\<rparr>)"

text \<open>
  The body of the \<open>while\<close> loop. The test \<open>current_node.level == effective_num_levels-1\<close>
  is on unsigned numbers, where it says \<open>level + 1 = effective_num_levels\<close>.
\<close>

definition dfs_loop_body ::
  "dfs_handler \<Rightarrow> depth_first_iteration_strategy \<Rightarrow> nat \<Rightarrow> dfs_state \<Rightarrow> dfs_state" where
  "dfs_loop_body h strategy effective_num_levels s =
     (if level (current_node s) + 1 = effective_num_levels
      then QUERY_PARTICLE_LEVEL h strategy s
      else QUERY_NODE_LEVEL h strategy effective_num_levels s)"

definition dfs_initial_state :: dfs_state where
  "dfs_initial_state =
     \<lparr>current_node = \<lparr>level = 0, local_node_id = 0\<rparr>,
      num_covered_particles = 0,
      dfs_trace = [Dfs_at_query_init]\<rparr>"

text \<open>
  One query of the kernel: \<open>None\<close> when the \<open>while\<close> loop never ends, otherwise the final
  state, its trace closed by \<open>at_query_exit\<close>.
\<close>

definition dfs_query ::
  "depth_first_iteration_strategy \<Rightarrow> dfs_handler \<Rightarrow> nat \<Rightarrow> nat \<Rightarrow> dfs_state option" where
  "dfs_query strategy h num_particles effective_num_levels =
     map_option (\<lambda>s. s\<lparr>dfs_trace := dfs_trace s @ [Dfs_at_query_exit]\<rparr>)
       (while_option (\<lambda>s. num_covered_particles s < num_particles)
          (dfs_loop_body h strategy effective_num_levels) dfs_initial_state)"





text \<open>A handler whose answers depend on the node or the particle alone.\<close>

definition stateless_dfs_handler ::
  "(binary_tree_key_t \<Rightarrow> bool) \<Rightarrow> (nat \<Rightarrow> bool) \<Rightarrow> dfs_handler" where
  "stateless_dfs_handler accept_node accept_particle =
     \<lparr>dfs_node_selector = (\<lambda>_. accept_node), dfs_particle_processor = (\<lambda>_. accept_particle)\<rparr>"

section \<open>Breadth-first query engine\<close>

text \<open>
  The kernel \<open>query\<close> of \<open>register_breadth_first\<close> keeps the local ids of the selected
  nodes of one level in \<open>available_nodes_local_id\<close>, an array of \<open>Max_selected_nodes\<close>
  entries of which the first \<open>num_available_nodes\<close> are live. Both this array and
  \<open>temp_new_node_ids\<close> are automatic storage that the kernel does not initialise: an
  entry is \<open>None\<close> until the kernel writes it.

  The body of a query has no jump but the \<open>break\<close> of the level loop, and every loop in
  it is bounded, so control reaches each statement whatever the arrays hold. The model
  follows the control flow:
  \<^item> a read of an entry never written gives what the storage held before the query, the
    parameter \<open>uninitialised\<close> of the model; so does a read outside an array;
  \<^item> a store outside an array is recorded as an event of the query and leaves the two
    arrays as they are. What else such a store overwrites is outside the model.
\<close>

datatype bfs_array = Available_nodes_local_id | Temp_new_node_ids

datatype bfs_fault = Write_out_of_bounds bfs_array nat

type_synonym bfs_storage = "bfs_array \<Rightarrow> nat \<Rightarrow> nat"

text \<open>
  The events of a breadth-first query. The handler's selectors are macros expanded inside
  the kernel, so they see the level, the live count, the id array and the candidate count
  they are offered; the events carry these.
\<close>

datatype bfs_event =
    Bfs_at_query_init
  | Bfs_node_selector nat nat "nat option list" nat
  | Bfs_particle_processor nat "nat option list" nat
  | Bfs_at_query_exit
  | Bfs_fault bfs_fault

definition array_read :: "bfs_storage \<Rightarrow> bfs_array \<Rightarrow> nat option list \<Rightarrow> nat \<Rightarrow> nat" where
  "array_read uninitialised a xs i =
     (if i < length xs
      then (case xs ! i of Some v \<Rightarrow> v | None \<Rightarrow> uninitialised a i)
      else uninitialised a i)"

text \<open>A store: the events it adds to the query and the array after it.\<close>

definition array_write ::
  "bfs_array \<Rightarrow> nat option list \<Rightarrow> nat \<Rightarrow> nat \<Rightarrow> bfs_event list \<times> nat option list" where
  "array_write a xs i v =
     (if i < length xs then ([], xs[i := Some v])
      else ([Bfs_fault (Write_out_of_bounds a i)], xs))"

text \<open>\<open>id >> 1\<close> and \<open>id & 1\<close> of the kernel are \<open>id div 2\<close> and \<open>id mod 2\<close>.\<close>

definition get_lnid_from_available_children_index ::
  "bfs_storage \<Rightarrow> nat option list \<Rightarrow> nat \<Rightarrow> nat" where
  "get_lnid_from_available_children_index uninitialised parent_lnid_buffer child_id =
     BT_LOCAL_NODE_ID_OF_LEFT_CHILD
       (array_read uninitialised Available_nodes_local_id parent_lnid_buffer (child_id div 2))
     + child_id mod 2"

text \<open>
  The macro \<open>bfs_load_node\<close>, through which a handler reaches a candidate: the key of
  the candidate. The index into the two value buffers is a function of that key; the
  macro's debug assertions are not part of the model.
\<close>

definition bfs_load_node ::
  "bfs_storage \<Rightarrow> nat \<Rightarrow> nat option list \<Rightarrow> nat \<Rightarrow> binary_tree_key_t" where
  "bfs_load_node uninitialised lvl available_nodes_local_id child_id =
     \<lparr>level = lvl,
      local_node_id =
        get_lnid_from_available_children_index uninitialised available_nodes_local_id
          child_id\<rparr>"

text \<open>
  Modelled from the spec: the handler's batched node selector \<open>bfs_node_selector\<close>, a macro
  of the handler module that is not among the sources. It is invoked once with the number
  of candidates and marks, through \<open>bfs_select (id)\<close> and \<open>bfs_deselect (id)\<close>, entries of
  \<open>selection_map\<close>. These two macros store to \<open>selection_map [id]\<close> without comparing
  \<open>id\<close> with the number of candidates, so the selector of the model says for every entry
  of the map whether it is marked when the selector returns. Its answer may depend on the
  level, on the id array and on the number of candidates.
\<close>

record bfs_handler =
  bfs_node_selector :: "nat \<Rightarrow> nat option list \<Rightarrow> nat \<Rightarrow> nat \<Rightarrow> bool"

text \<open>\<open>selection_map\<close>, of \<open>Max_children = 2 * Max_selected_nodes\<close> entries, is cleared
  and then filled by the selector.\<close>

definition selection_map_after_selector ::
  "bfs_handler \<Rightarrow> nat \<Rightarrow> nat \<Rightarrow> nat option list \<Rightarrow> nat \<Rightarrow> bool list" where
  "selection_map_after_selector h Max_selected_nodes lvl available_nodes_local_id
       available_children =
     map (\<lambda>i. bfs_node_selector h lvl available_nodes_local_id available_children i)
       [0 ..< 2 * Max_selected_nodes]"

text \<open>The number of candidates of a node level: twice the live count, less one when the
  last child of the last live node is not used.\<close>

definition bfs_available_children ::
  "bfs_storage \<Rightarrow> nat \<Rightarrow> nat \<Rightarrow> nat \<Rightarrow> nat \<Rightarrow> nat option list \<Rightarrow> nat" where
  "bfs_available_children uninitialised num_particles effective_num_levels lvl
       num_available_nodes available_nodes_local_id =
     (let last_child =
            binary_tree_get_children_last
              (binary_tree_key_init (lvl - 1)
                 (array_read uninitialised Available_nodes_local_id available_nodes_local_id
                    (num_available_nodes - 1)))
      in if \<not> binary_tree_is_node_used last_child effective_num_levels num_particles
         then 2 * num_available_nodes - 1
         else 2 * num_available_nodes)"

text \<open>The loop over \<open>i < Max_children\<close> that gathers the selected candidates in
  \<open>temp_new_node_ids\<close>; the pair is \<open>(num_available_nodes, temp_new_node_ids)\<close>. The store
  comes first, the clamp of the count after it.\<close>

fun gather_selected ::
  "bfs_storage \<Rightarrow> nat \<Rightarrow> bool list \<Rightarrow> nat option list \<Rightarrow> nat list \<Rightarrow> nat \<times> nat option list
     \<Rightarrow> bfs_event list \<times> nat \<times> nat option list" where
  "gather_selected uninitialised Max_selected_nodes selection_map available_nodes_local_id []
       (num_available_nodes, temp_new_node_ids) =
     ([], (num_available_nodes, temp_new_node_ids))"
| "gather_selected uninitialised Max_selected_nodes selection_map available_nodes_local_id
       (i # rest) (num_available_nodes, temp_new_node_ids) =
     (if selection_map ! i
      then (case array_write Temp_new_node_ids temp_new_node_ids num_available_nodes
                   (get_lnid_from_available_children_index uninitialised
                      available_nodes_local_id i) of
              (stored, written) \<Rightarrow>
                (case gather_selected uninitialised Max_selected_nodes selection_map
                        available_nodes_local_id rest
                        (min (num_available_nodes + 1) Max_selected_nodes, written) of
                   (later, r) \<Rightarrow> (stored @ later, r)))
      else gather_selected uninitialised Max_selected_nodes selection_map
             available_nodes_local_id rest (num_available_nodes, temp_new_node_ids))"

text \<open>The loop that copies \<open>temp_new_node_ids\<close> back.\<close>

fun copy_new_node_ids ::
  "bfs_storage \<Rightarrow> nat list \<Rightarrow> nat option list \<Rightarrow> nat option list
     \<Rightarrow> bfs_event list \<times> nat option list" where
  "copy_new_node_ids uninitialised [] temp_new_node_ids available_nodes_local_id =
     ([], available_nodes_local_id)"
| "copy_new_node_ids uninitialised (i # rest) temp_new_node_ids available_nodes_local_id =
     (case array_write Available_nodes_local_id available_nodes_local_id i
             (array_read uninitialised Temp_new_node_ids temp_new_node_ids i) of
        (stored, written) \<Rightarrow>
          (case copy_new_node_ids uninitialised rest temp_new_node_ids written of
             (later, r) \<Rightarrow> (stored @ later, r)))"

text \<open>One pass of the level loop after its \<open>break\<close> test: the events it adds and the new
  \<open>(num_available_nodes, available_nodes_local_id)\<close>.\<close>

definition bfs_level_iteration ::
  "bfs_handler \<Rightarrow> bfs_storage \<Rightarrow> nat \<Rightarrow> nat \<Rightarrow> nat \<Rightarrow> nat \<Rightarrow> nat \<times> nat option list
     \<Rightarrow> bfs_event list \<times> nat \<times> nat option list" where
  "bfs_level_iteration h uninitialised Max_selected_nodes num_particles effective_num_levels
       lvl st =
     (case st of (num_available_nodes, available_nodes_local_id) \<Rightarrow>
       (let available_children =
              bfs_available_children uninitialised num_particles effective_num_levels lvl
                num_available_nodes available_nodes_local_id;
            selection_map =
              selection_map_after_selector h Max_selected_nodes lvl
                available_nodes_local_id available_children;
            asked = [Bfs_node_selector lvl num_available_nodes
                       available_nodes_local_id available_children]
        in case gather_selected uninitialised Max_selected_nodes selection_map
                  available_nodes_local_id [0 ..< 2 * Max_selected_nodes]
                  (0, replicate Max_selected_nodes None) of
             (stored, (new_num_available_nodes, temp_new_node_ids)) \<Rightarrow>
               (case copy_new_node_ids uninitialised [0 ..< new_num_available_nodes]
                       temp_new_node_ids available_nodes_local_id of
                  (copied, new_available_nodes_local_id) \<Rightarrow>
                    (asked @ stored @ copied,
                     (new_num_available_nodes, new_available_nodes_local_id)))))"

text \<open>
  The loop \<open>for(uint level = 1; level < 64; ++level)\<close> with its \<open>break\<close>. The test
  \<open>level == effective_num_levels-1\<close> is on unsigned numbers, where it says
  \<open>level + 1 = effective_num_levels\<close>.
\<close>

function bfs_level_loop ::
  "bfs_handler \<Rightarrow> bfs_storage \<Rightarrow> nat \<Rightarrow> nat \<Rightarrow> nat \<Rightarrow> nat \<Rightarrow> nat \<times> nat option list
     \<Rightarrow> bfs_event list \<times> nat \<times> nat option list" where
  "bfs_level_loop h uninitialised Max_selected_nodes num_particles effective_num_levels
       lvl st =
     (if lvl < 64
      then (if fst st = 0 \<or> lvl + 1 = effective_num_levels
            then ([], st)
            else (case bfs_level_iteration h uninitialised Max_selected_nodes num_particles
                         effective_num_levels lvl st of
                    (events, st') \<Rightarrow>
                      (case bfs_level_loop h uninitialised Max_selected_nodes num_particles
                              effective_num_levels (lvl + 1) st' of
                         (later, r) \<Rightarrow> (events @ later, r))))
      else ([], st))"
  by pat_completeness auto
termination
  by (relation "measure (\<lambda>(h, u, C, n, l, lvl, st). 64 - lvl)") auto

declare bfs_level_loop.simps [simp del]

text \<open>The particle pass after the level loop.\<close>

definition bfs_particle_pass ::
  "bfs_storage \<Rightarrow> nat \<Rightarrow> nat \<times> nat option list \<Rightarrow> bfs_event list" where
  "bfs_particle_pass uninitialised num_particles st =
     (case st of (num_available_nodes, available_nodes_local_id) \<Rightarrow>
       (if num_available_nodes > 0
        then [Bfs_particle_processor num_available_nodes available_nodes_local_id
                (if get_lnid_from_available_children_index uninitialised
                      available_nodes_local_id (2 * num_available_nodes - 1)
                    \<ge> num_particles
                 then 2 * num_available_nodes - 1
                 else 2 * num_available_nodes)]
        else []))"

text \<open>One query of the kernel, as the sequence of its events: \<open>at_query_init\<close>, the store
  \<open>available_nodes_local_id [0] = 0\<close>, the level loop, the particle pass and
  \<open>at_query_exit\<close>.\<close>

definition bfs_query ::
  "bfs_handler \<Rightarrow> bfs_storage \<Rightarrow> nat \<Rightarrow> nat \<Rightarrow> nat \<Rightarrow> bfs_event list" where
  "bfs_query h uninitialised Max_selected_nodes num_particles effective_num_levels =
     Bfs_at_query_init #
     (case array_write Available_nodes_local_id (replicate Max_selected_nodes None) 0 0 of
        (stored, available_nodes_local_id) \<Rightarrow>
          (case bfs_level_loop h uninitialised Max_selected_nodes num_particles
                  effective_num_levels 1 (1, available_nodes_local_id) of
             (events, st) \<Rightarrow>
               stored @ events @ bfs_particle_pass uninitialised num_particles st
                 @ [Bfs_at_query_exit]))"

section \<open>Notions used in the statements\<close>

subsection \<open>Depth-first queries\<close>

text \<open>The index of the leftmost particle slot below a node.\<close>

definition leftmost_leaf :: "binary_tree_key_t \<Rightarrow> nat \<Rightarrow> nat" where
  "leftmost_leaf node num_levels =
     local_node_id node * BT_LEAVES_PER_NODE (level node) num_levels"

text \<open>A node of the deepest node level whose leftmost particle slot lies at or beyond
  the true particle count.\<close>

definition unused_last_level_node :: "nat \<Rightarrow> nat \<Rightarrow> binary_tree_key_t \<Rightarrow> bool" where
  "unused_last_level_node num_particles num_levels node =
     (level node + 2 = num_levels \<and> num_particles \<le> leftmost_leaf node num_levels)"

text \<open>
  The invariant of the depth-first loop: the cursor is inside the tree, the particle
  slots to its left are exactly the covered ones, and no more slots are covered than the
  padded tree has.
\<close>

definition dfs_inv :: "nat \<Rightarrow> dfs_state \<Rightarrow> bool" where
  "dfs_inv num_levels s =
     (level (current_node s) < num_levels \<and>
      leftmost_leaf (current_node s) num_levels = num_covered_particles s \<and>
      num_covered_particles s \<le> 2 ^ (num_levels - 1))"

text \<open>A quantity that every pass of the depth-first loop makes smaller.\<close>

definition dfs_measure :: "nat \<Rightarrow> nat \<Rightarrow> dfs_state \<Rightarrow> nat" where
  "dfs_measure num_particles num_levels s =
     (num_particles - num_covered_particles s) * num_levels
       + (num_levels - 1 - level (current_node s))"

text \<open>The nodes a depth-first query loaded or passed to the node selector.\<close>

fun visited_node_of :: "dfs_event \<Rightarrow> binary_tree_key_t option" where
  "visited_node_of (Dfs_load_node node) = Some node"
| "visited_node_of (Dfs_node_selector node _) = Some node"
| "visited_node_of _ = None"

definition dfs_visited_nodes :: "dfs_state \<Rightarrow> binary_tree_key_t list" where
  "dfs_visited_nodes s = List.map_filter visited_node_of (dfs_trace s)"

text \<open>The invariant behind the visited nodes: each of them has its leftmost particle
  slot below the true particle count.\<close>

definition dfs_visit_inv :: "nat \<Rightarrow> nat \<Rightarrow> dfs_state \<Rightarrow> bool" where
  "dfs_visit_inv num_particles num_levels s =
     (dfs_inv num_levels s \<and>
      list_all (\<lambda>node. leftmost_leaf node num_levels < num_particles) (dfs_visited_nodes s))"



text \<open>Handlers of the examples.\<close>

definition dfs_reject_every_node :: dfs_handler where
  "dfs_reject_every_node = stateless_dfs_handler (\<lambda>_. False) (\<lambda>_. True)"

definition dfs_accept_everything :: dfs_handler where
  "dfs_accept_everything = stateless_dfs_handler (\<lambda>_. True) (\<lambda>_. True)"




subsection \<open>Breadth-first queries\<close>

text \<open>The levels at which a query invoked the node selector, in order.\<close>

fun node_level_of :: "bfs_event \<Rightarrow> nat option" where
  "node_level_of (Bfs_node_selector lvl _ _ _) = Some lvl"
| "node_level_of _ = None"

definition bfs_node_levels :: "bfs_event list \<Rightarrow> nat list" where
  "bfs_node_levels events = List.map_filter node_level_of events"

text \<open>A selector invoked with at least one live node; a store outside an array.\<close>

fun live_working_set :: "bfs_event \<Rightarrow> bool" where
  "live_working_set (Bfs_node_selector lvl n avail cnt) = (0 < n)"
| "live_working_set (Bfs_particle_processor n avail cnt) = (0 < n)"
| "live_working_set _ = False"

fun stray_store :: "bfs_event \<Rightarrow> bool" where
  "stray_store (Bfs_fault f) = True"
| "stray_store _ = False"

text \<open>
  The rightmost candidate of a level is the last child of the last live node. The
  expected number of candidates is twice the number of live nodes, less one when the
  rightmost candidate fails the existence test against the true particle count. In the
  particle pass the candidates are at the deepest level, \<open>num_levels - 1\<close>.
\<close>

definition rightmost_candidate :: "nat \<Rightarrow> nat \<Rightarrow> binary_tree_key_t" where
  "rightmost_candidate lvl last_parent =
     binary_tree_get_children_last (binary_tree_key_init (lvl - 1) last_parent)"

definition expected_candidates ::
  "bfs_storage \<Rightarrow> nat \<Rightarrow> nat \<Rightarrow> nat \<Rightarrow> nat \<Rightarrow> nat option list \<Rightarrow> nat" where
  "expected_candidates uninitialised num_particles num_levels lvl n avail =
     (if binary_tree_is_node_used
           (rightmost_candidate lvl
              (array_read uninitialised Available_nodes_local_id avail (n - 1)))
           num_levels num_particles
      then 2 * n else 2 * n - 1)"

fun candidate_count_ok :: "bfs_storage \<Rightarrow> nat \<Rightarrow> nat \<Rightarrow> bfs_event \<Rightarrow> bool" where
  "candidate_count_ok uninitialised num_particles num_levels
       (Bfs_node_selector lvl n avail cnt) =
     (cnt = expected_candidates uninitialised num_particles num_levels lvl n avail)"
| "candidate_count_ok uninitialised num_particles num_levels
       (Bfs_particle_processor n avail cnt) =
     (cnt = expected_candidates uninitialised num_particles num_levels (num_levels - 1) n
              avail)"
| "candidate_count_ok uninitialised num_particles num_levels _ = True"

text \<open>
  The nodes a node selector is offered: what \<open>bfs_load_node\<close> gives for each candidate
  below the candidate count. An offer is in order when each of these nodes has its
  leftmost particle slot below the true particle count.
\<close>

fun bfs_offered_nodes :: "bfs_storage \<Rightarrow> bfs_event \<Rightarrow> binary_tree_key_t list" where
  "bfs_offered_nodes uninitialised (Bfs_node_selector lvl n avail cnt) =
     map (bfs_load_node uninitialised lvl avail) [0 ..< cnt]"
| "bfs_offered_nodes uninitialised _ = []"

definition offers_used_nodes :: "bfs_storage \<Rightarrow> nat \<Rightarrow> nat \<Rightarrow> bfs_event \<Rightarrow> bool" where
  "offers_used_nodes uninitialised num_particles num_levels e =
     list_all (\<lambda>node. leftmost_leaf node num_levels < num_particles)
       (bfs_offered_nodes uninitialised e)"

text \<open>
  A selector keeps to its candidates when it marks no entry of \<open>selection_map\<close> at or
  beyond the number of candidates it is invoked with.
\<close>

definition marks_offered_only :: "bfs_handler \<Rightarrow> bool" where
  "marks_offered_only h =
     (\<forall>lvl avail cnt i. bfs_node_selector h lvl avail cnt i \<longrightarrow> i < cnt)"

text \<open>The entries of \<open>selection_map\<close> that are marked when the selector returns, in
  increasing order.\<close>

definition marked_candidates ::
  "bfs_handler \<Rightarrow> nat \<Rightarrow> nat \<Rightarrow> nat option list \<Rightarrow> nat \<Rightarrow> nat list" where
  "marked_candidates h C lvl avail cnt =
     filter (\<lambda>i. selection_map_after_selector h C lvl avail cnt ! i) [0 ..< 2 * C]"

text \<open>
  The invariant of the level loop of such a selector, for the level \<open>lvl\<close> about to be
  examined: the id array has \<open>Max_selected_nodes\<close> entries, its first \<open>n\<close> entries are
  written, they increase strictly, and each is a used node of level \<open>lvl - 1\<close>.
  \<open>candidate_id\<close> is the local id of a candidate, \<open>offered_count\<close> the number of
  candidates of the level.
\<close>

definition live_ids :: "nat \<Rightarrow> nat option list \<Rightarrow> nat list" where
  "live_ids n avail = map the (take n avail)"

definition candidate_id :: "nat option list \<Rightarrow> nat \<Rightarrow> nat" where
  "candidate_id avail i = 2 * the (avail ! (i div 2)) + i mod 2"

definition bfs_inv :: "nat \<Rightarrow> nat \<Rightarrow> nat \<Rightarrow> nat \<Rightarrow> nat \<times> nat option list \<Rightarrow> bool" where
  "bfs_inv C num_particles num_levels lvl st =
     (case st of (n, avail) \<Rightarrow>
        length avail = C \<and> n \<le> C \<and> (\<forall>i < n. avail ! i \<noteq> None) \<and>
        sorted_wrt (<) (live_ids n avail) \<and>
        (\<forall>a \<in> set (live_ids n avail). a * 2 ^ (num_levels - lvl) < num_particles))"

definition offered_count :: "nat \<Rightarrow> nat \<Rightarrow> nat \<Rightarrow> nat \<Rightarrow> nat option list \<Rightarrow> nat" where
  "offered_count num_particles num_levels lvl n avail =
     (if binary_tree_is_node_used
           \<lparr>level = lvl - 1 + 1, local_node_id = candidate_id avail (2 * n - 1)\<rparr>
           num_levels num_particles
      then 2 * n else 2 * n - 1)"

text \<open>
  What the capacity \<open>Max_selected_nodes\<close> asks of the events of a query: a selector sees
  an id array of that many entries of which no more are live, and a store outside an
  array is the store to \<open>temp_new_node_ids [Max_selected_nodes]\<close>.
\<close>

fun within_capacity :: "nat \<Rightarrow> bfs_event \<Rightarrow> bool" where
  "within_capacity C (Bfs_node_selector lvl n avail cnt) = (n \<le> C \<and> length avail = C)"
| "within_capacity C (Bfs_particle_processor n avail cnt) = (n \<le> C \<and> length avail = C)"
| "within_capacity C (Bfs_fault f) = (f = Write_out_of_bounds Temp_new_node_ids C)"
| "within_capacity C _ = True"

text \<open>Handlers and storage of the examples. \<open>bfs_select_all\<close> marks every candidate it
  is offered; \<open>bfs_mark_unoffered\<close> marks, at level 1, the second candidate and an entry
  beyond the two candidates of that level.\<close>

definition bfs_select_all :: bfs_handler where
  "bfs_select_all = \<lparr>bfs_node_selector = (\<lambda>_ _ cnt i. i < cnt)\<rparr>"

definition bfs_select_none :: bfs_handler where
  "bfs_select_none = \<lparr>bfs_node_selector = (\<lambda>_ _ _ _. False)\<rparr>"

definition bfs_select_first :: bfs_handler where
  "bfs_select_first = \<lparr>bfs_node_selector = (\<lambda>_ _ _ i. i = 0)\<rparr>"

definition bfs_mark_unoffered :: bfs_handler where
  "bfs_mark_unoffered = \<lparr>bfs_node_selector = (\<lambda>lvl _ _ i. lvl = 1 \<and> (i = 1 \<or> i = 2))\<rparr>"

definition zeroed_storage :: bfs_storage where
  "zeroed_storage = (\<lambda>_ _. 0)"

section \<open>Properties of the addressing functions\<close>

lemma parent_funpow:
  "(binary_tree_get_parent ^^ d) m =
     \<lparr>level = level m - d, local_node_id = local_node_id m div 2 ^ d\<rparr>"
proof (induction d)
  case 0
  show ?case by simp
next
  case (Suc d)
  have "(binary_tree_get_parent ^^ Suc d) m =
      binary_tree_get_parent ((binary_tree_get_parent ^^ d) m)"
    by simp
  also have "\<dots> = binary_tree_get_parent
      \<lparr>level = level m - d, local_node_id = local_node_id m div 2 ^ d\<rparr>"
    by (simp only: Suc)
  also have "\<dots> = \<lparr>level = level m - Suc d, local_node_id = local_node_id m div 2 ^ Suc d\<rparr>"
    by (simp add: binary_tree_get_parent_def div_mult2_eq [symmetric] mult.commute)
  finally show ?case .
qed

lemma effective_counts_fit:
  "1 \<le> get_effective_num_levels num_particles"
  "num_particles \<le> 2 ^ (get_effective_num_levels num_particles - 1)"
  "num_particles \<le> get_effective_num_particles num_particles"
  by (simp_all add: get_effective_num_levels_def get_effective_num_particles_def le_two_power_ceillog2)

lemma effective_counts_examples:
  "get_effective_num_levels 1 = 1" "get_effective_num_particles 1 = 1"
  "get_effective_num_levels 6 = 4" "get_effective_num_particles 6 = 8"
proof -
  have "ceillog2 6 = 3" by (rule ceillog2_eqI) simp_all
  then show "get_effective_num_levels 6 = 4" "get_effective_num_particles 6 = 8"
    by (simp_all add: get_effective_num_levels_def get_effective_num_particles_def)
qed (simp_all add: get_effective_num_levels_def get_effective_num_particles_def)

lemma children_are_descendants:
  "is_descendant 1 (binary_tree_get_children_begin node) node"
  "is_descendant 1 (binary_tree_get_children_last node) node"
  by (simp_all add: is_descendant_def binary_tree_get_parent_def
      binary_tree_get_children_begin_def binary_tree_get_children_last_def
      BT_LOCAL_NODE_ID_OF_LEFT_CHILD_def)

lemma is_descendant_trans:
  assumes "is_descendant d m k" and "is_descendant e k node"
  shows "is_descendant (d + e) m node"
proof -
  have "(binary_tree_get_parent ^^ (e + d)) m
      = (binary_tree_get_parent ^^ e) ((binary_tree_get_parent ^^ d) m)"
    by (simp only: funpow_add o_apply)
  with assms show ?thesis
    by (simp add: is_descendant_def add.commute)
qed

text \<open>
  C8. Climbing from either child gives back the node: for every node below the root and
  every local id, \<open>parent (children_begin node) = node\<close> and
  \<open>parent (children_last node) = node\<close>.
\<close>

theorem parent_of_children_roundtrip:
  "1 \<le> level node \<Longrightarrow>
     binary_tree_get_parent (binary_tree_get_children_begin node) = node \<and>
     binary_tree_get_parent (binary_tree_get_children_last node) = node"
  by (simp add: binary_tree_get_parent_def binary_tree_get_children_begin_def
      binary_tree_get_children_last_def BT_LOCAL_NODE_ID_OF_LEFT_CHILD_def)

theorem parent_of_children_roundtrip_witness:
  "1 \<le> level \<lparr>level = 2, local_node_id = 3\<rparr> \<and>
   binary_tree_get_parent (binary_tree_get_children_begin \<lparr>level = 2, local_node_id = 3\<rparr>)
     = \<lparr>level = 2, local_node_id = 3\<rparr> \<and>
   binary_tree_get_parent (binary_tree_get_children_last \<lparr>level = 2, local_node_id = 3\<rparr>)
     = \<lparr>level = 2, local_node_id = 3\<rparr>"
  using parent_of_children_roundtrip [of "\<lparr>level = 2, local_node_id = 3\<rparr>"] by simp

text \<open>
  C9. \<open>binary_tree_is_node_used\<close> is monotone. If a node is unused, then every node of
  the same level with a larger local id is unused, and so is every descendant of the node.
\<close>

theorem is_node_used_monotone:
  assumes "\<not> binary_tree_is_node_used node num_levels num_particles"
  shows "(level m = level node \<and> local_node_id node < local_node_id m
            \<longrightarrow> \<not> binary_tree_is_node_used m num_levels num_particles)
       \<and> (is_descendant d m node
            \<longrightarrow> \<not> binary_tree_is_node_used m num_levels num_particles)"
proof (intro conjI impI)
  let ?k = "num_levels - 1 - level node"
  from assms have unused: "num_particles \<le> local_node_id node * 2 ^ ?k"
    by (simp add: binary_tree_is_node_used_def BT_LEAVES_PER_NODE_def)
  {
    assume "level m = level node \<and> local_node_id node < local_node_id m"
    then have "local_node_id node * 2 ^ ?k \<le> local_node_id m * 2 ^ (num_levels - 1 - level m)"
      by simp
    with unused show "\<not> binary_tree_is_node_used m num_levels num_particles"
      by (simp add: binary_tree_is_node_used_def BT_LEAVES_PER_NODE_def)
  }
  {
    assume "is_descendant d m node"
    then have lv: "level m = level node + d"
      and id: "local_node_id node = local_node_id m div 2 ^ d"
      by (auto simp add: is_descendant_def parent_funpow)
    let ?j = "num_levels - 1 - level m"
    have "?k \<le> ?j + d" using lv by simp
    then have "(2::nat) ^ ?k \<le> 2 ^ (?j + d)"
      by (rule power_increasing) simp
    then have "local_node_id node * 2 ^ ?k \<le> local_node_id node * (2 ^ d * 2 ^ ?j)"
      by (simp add: power_add mult.commute)
    also have "\<dots> = (local_node_id m div 2 ^ d * 2 ^ d) * 2 ^ ?j"
      by (simp add: id)
    also have "\<dots> \<le> local_node_id m * 2 ^ ?j"
      by (rule mult_le_mono1) simp
    finally show "\<not> binary_tree_is_node_used m num_levels num_particles"
      using unused by (simp add: binary_tree_is_node_used_def BT_LEAVES_PER_NODE_def)
  }
qed

theorem is_node_used_monotone_witness:
  "\<not> binary_tree_is_node_used \<lparr>level = 2, local_node_id = 3\<rparr> 4 6
   \<and> level \<lparr>level = 2, local_node_id = 5\<rparr> = level \<lparr>level = 2, local_node_id = 3\<rparr>
   \<and> local_node_id \<lparr>level = 2, local_node_id = 3\<rparr>
       < local_node_id \<lparr>level = 2, local_node_id = 5\<rparr>
   \<and> \<not> binary_tree_is_node_used \<lparr>level = 2, local_node_id = 5\<rparr> 4 6
   \<and> is_descendant 1 \<lparr>level = 3, local_node_id = 7\<rparr> \<lparr>level = 2, local_node_id = 3\<rparr>
   \<and> \<not> binary_tree_is_node_used \<lparr>level = 3, local_node_id = 7\<rparr> 4 6"
proof -
  have unused: "\<not> binary_tree_is_node_used \<lparr>level = 2, local_node_id = 3\<rparr> 4 6"
    by (simp add: binary_tree_is_node_used_def BT_LEAVES_PER_NODE_def)
  have desc: "is_descendant 1 \<lparr>level = 3, local_node_id = 7\<rparr> \<lparr>level = 2, local_node_id = 3\<rparr>"
    by (simp add: is_descendant_def binary_tree_get_parent_def)
  show ?thesis
    using unused desc
      is_node_used_monotone [OF unused, of "\<lparr>level = 2, local_node_id = 5\<rparr>" 0]
      is_node_used_monotone [OF unused, of "\<lparr>level = 3, local_node_id = 7\<rparr>" 1]
    by simp
qed

section \<open>The depth-first loop: invariant and termination\<close>

lemma find_first_left_parent_while_climbs:
  "local_node_id r < 2 ^ level r \<Longrightarrow>
     level (find_first_left_parent_while r) \<le> level r \<and>
     (local_node_id (find_first_left_parent_while r) + 1)
        * 2 ^ (level r - level (find_first_left_parent_while r)) = local_node_id r + 1"
proof (induction r rule: find_first_left_parent_while.induct)
  case (1 r)
  show ?case
  proof (cases "binary_tree_is_right_child r")
    case False
    then have "find_first_left_parent_while r = r"
      by (subst find_first_left_parent_while.simps) simp
    then show ?thesis by simp
  next
    case True
    let ?p = "binary_tree_get_parent r"
    let ?t = "find_first_left_parent_while ?p"
    from True have odd: "odd (local_node_id r)"
      by (simp add: binary_tree_is_right_child_def)
    with "1.prems" have lv: "1 \<le> level r"
      by (cases "level r") auto
    have plv: "level ?p = level r - 1" and pid: "local_node_id ?p = local_node_id r div 2"
      by (simp_all add: binary_tree_get_parent_def)
    have "local_node_id r < 2 * 2 ^ (level r - 1)"
      using "1.prems" lv by (cases "level r") auto
    then have "local_node_id ?p < 2 ^ level ?p"
      unfolding plv pid by simp
    from "1.IH" [OF True this]
    have le: "level ?t \<le> level ?p"
      and eq: "(local_node_id ?t + 1) * 2 ^ (level ?p - level ?t) = local_node_id ?p + 1"
      by simp_all
    have res: "find_first_left_parent_while r = ?t"
      using True by (subst find_first_left_parent_while.simps) simp
    have "level r - level ?t = Suc (level ?p - level ?t)"
      using le lv plv by simp
    then have "(local_node_id ?t + 1) * 2 ^ (level r - level ?t)
        = 2 * ((local_node_id ?t + 1) * 2 ^ (level ?p - level ?t))"
      by simp
    also have "\<dots> = 2 * (local_node_id r div 2 + 1)"
      using eq pid by simp
    also have "\<dots> = local_node_id r + 1"
      using odd by (auto elim: oddE)
    finally show ?thesis
      using le plv res by simp
  qed
qed

lemma next_after_rejection_leftmost_leaf:
  assumes "local_node_id n < 2 ^ level n" and "level n < num_levels"
  shows "level (next_after_rejection strategy n) \<le> level n \<and>
     leftmost_leaf (next_after_rejection strategy n) num_levels
       = leftmost_leaf n num_levels + BT_LEAVES_PER_NODE (level n) num_levels"
proof (cases "binary_tree_is_right_child n")
  case False
  then show ?thesis
    by (simp add: next_after_rejection_def leftmost_leaf_def)
next
  case True
  let ?p = "binary_tree_get_parent n"
  from True have odd: "odd (local_node_id n)"
    by (simp add: binary_tree_is_right_child_def)
  with assms(1) have lv: "1 \<le> level n"
    by (cases "level n") auto
  have plv: "level ?p = level n - 1" and pid: "local_node_id ?p = local_node_id n div 2"
    by (simp_all add: binary_tree_get_parent_def)
  have "local_node_id n < 2 * 2 ^ (level n - 1)"
    using assms(1) lv by (cases "level n") auto
  then have pin: "local_node_id ?p < 2 ^ level ?p"
    unfolding plv pid by simp
  have climb: "level up \<le> level ?p \<and>
      (local_node_id up + 1) * 2 ^ (level ?p - level up) = local_node_id ?p + 1"
    if "up = NEXT_PARENT strategy n" for up
  proof (cases strategy)
    case HIERARCHICAL_ITERATION_STRICT
    with that have "up = find_first_left_parent_while ?p"
      by (simp add: find_first_left_parent_def)
    with find_first_left_parent_while_climbs [OF pin] show ?thesis by simp
  next
    case HIERARCHICAL_ITERATION_RELAXED
    with that show ?thesis by simp
  qed
  define up where "up = NEXT_PARENT strategy n"
  from climb [OF up_def] have le: "level up \<le> level ?p"
    and eq: "(local_node_id up + 1) * 2 ^ (level ?p - level up) = local_node_id ?p + 1"
    by simp_all
  have nxt: "next_after_rejection strategy n = up\<lparr>local_node_id := local_node_id up + 1\<rparr>"
    using True by (simp add: next_after_rejection_def up_def Let_def)
  have split: "num_levels - 1 - level up = (level ?p - level up) + (num_levels - 1 - level ?p)"
    using le plv assms(2) by simp
  have k: "num_levels - 1 - level ?p = Suc (num_levels - 1 - level n)"
    using plv lv assms(2) by simp
  have "(local_node_id up + 1) * 2 ^ (num_levels - 1 - level up)
      = ((local_node_id up + 1) * 2 ^ (level ?p - level up)) * 2 ^ (num_levels - 1 - level ?p)"
    by (simp only: split power_add mult.assoc)
  also have "\<dots> = (local_node_id n div 2 + 1) * (2 * 2 ^ (num_levels - 1 - level n))"
    by (simp only: eq pid k power_Suc)
  also have "\<dots> = (2 * (local_node_id n div 2 + 1)) * 2 ^ (num_levels - 1 - level n)"
    by simp
  also have "2 * (local_node_id n div 2 + 1) = local_node_id n + 1"
    using odd by (auto elim: oddE)
  finally have "(local_node_id up + 1) * 2 ^ (num_levels - 1 - level up)
      = (local_node_id n + 1) * 2 ^ (num_levels - 1 - level n)" .
  then show ?thesis
    using le plv by (simp add: nxt leftmost_leaf_def BT_LEAVES_PER_NODE_def)
qed

lemma dfs_inv_initial: "1 \<le> num_levels \<Longrightarrow> dfs_inv num_levels dfs_initial_state"
  by (simp add: dfs_inv_def dfs_initial_state_def leftmost_leaf_def)

lemma dfs_inv_cursor_in_level:
  assumes "dfs_inv num_levels s" and "num_covered_particles s < 2 ^ (num_levels - 1)"
  shows "local_node_id (current_node s) < 2 ^ level (current_node s)"
proof -
  let ?n = "current_node s"
  let ?k = "num_levels - 1 - level ?n"
  from assms(1) have lv: "level ?n < num_levels"
    and cov: "local_node_id ?n * 2 ^ ?k = num_covered_particles s"
    by (simp_all add: dfs_inv_def leftmost_leaf_def BT_LEAVES_PER_NODE_def)
  have "(2::nat) ^ (num_levels - 1) = 2 ^ level ?n * 2 ^ ?k"
    using lv by (simp add: power_add [symmetric])
  with assms(2) cov have "local_node_id ?n * 2 ^ ?k < 2 ^ level ?n * 2 ^ ?k"
    by simp
  then show ?thesis by simp
qed

lemma covered_dfs_loop_body:
  "num_covered_particles (dfs_loop_body h strategy num_levels s) =
     num_covered_particles s +
       (if level (current_node s) + 1 = num_levels then 1
        else if dfs_node_selector h (dfs_trace s @ [Dfs_load_node (current_node s)]) (current_node s)
             then 0
             else BT_LEAVES_PER_NODE (level (current_node s)) num_levels)"
  by (simp add: dfs_loop_body_def QUERY_PARTICLE_LEVEL_def QUERY_NODE_LEVEL_def Let_def)

lemma dfs_inv_step:
  assumes inv: "dfs_inv num_levels s"
    and run: "num_covered_particles s < num_particles"
    and fit: "num_particles \<le> 2 ^ (num_levels - 1)"
  shows "dfs_inv num_levels (dfs_loop_body h strategy num_levels s)"
proof -
  let ?n = "current_node s"
  let ?k = "num_levels - 1 - level ?n"
  from inv have lv: "level ?n < num_levels"
    and cov: "leftmost_leaf ?n num_levels = num_covered_particles s"
    by (simp_all add: dfs_inv_def)
  from run fit have below: "num_covered_particles s < 2 ^ (num_levels - 1)" by simp
  have inl: "local_node_id ?n < 2 ^ level ?n"
    by (rule dfs_inv_cursor_in_level [OF inv below])
  have whole: "(2::nat) ^ (num_levels - 1) = 2 ^ level ?n * 2 ^ ?k"
    using lv by (simp add: power_add [symmetric])
  have "(local_node_id ?n + 1) * 2 ^ ?k \<le> 2 ^ level ?n * 2 ^ ?k"
    using inl by (intro mult_le_mono1) simp
  then have room: "num_covered_particles s + BT_LEAVES_PER_NODE (level ?n) num_levels
      \<le> 2 ^ (num_levels - 1)"
    using cov whole by (simp add: leftmost_leaf_def BT_LEAVES_PER_NODE_def)
  note rej = next_after_rejection_leftmost_leaf [OF inl lv, of strategy]
  show ?thesis
  proof (cases "level ?n + 1 = num_levels")
    case True
    then have one: "BT_LEAVES_PER_NODE (level ?n) num_levels = 1"
      by (auto simp: BT_LEAVES_PER_NODE_def)
    show ?thesis
      using True lv cov room rej one
      by (auto simp: dfs_inv_def dfs_loop_body_def QUERY_PARTICLE_LEVEL_def Let_def
          leftmost_leaf_def)
  next
    case False
    with lv have deeper: "level ?n + 1 < num_levels" by simp
    then have "?k = Suc (num_levels - 1 - (level ?n + 1))" by simp
    then have "BT_LEAVES_PER_NODE (level ?n) num_levels
        = 2 * BT_LEAVES_PER_NODE (level ?n + 1) num_levels"
      by (simp add: BT_LEAVES_PER_NODE_def)
    then have child: "leftmost_leaf (binary_tree_get_children_begin ?n) num_levels
        = leftmost_leaf ?n num_levels"
      by (simp add: leftmost_leaf_def binary_tree_get_children_begin_def
          BT_LOCAL_NODE_ID_OF_LEFT_CHILD_def)
    have clv: "level (binary_tree_get_children_begin ?n) = level ?n + 1"
      by (simp add: binary_tree_get_children_begin_def)
    show ?thesis
      using False deeper lv cov room rej child clv inv
      by (auto simp: dfs_inv_def dfs_loop_body_def QUERY_NODE_LEVEL_def Let_def)
  qed
qed

lemma dfs_measure_step:
  assumes inv: "dfs_inv num_levels s"
    and run: "num_covered_particles s < num_particles"
    and fit: "num_particles \<le> 2 ^ (num_levels - 1)"
  shows "dfs_measure num_particles num_levels (dfs_loop_body h strategy num_levels s)
     < dfs_measure num_particles num_levels s"
proof -
  let ?s' = "dfs_loop_body h strategy num_levels s"
  let ?n = "current_node s"
  from inv have lv: "level ?n < num_levels" by (simp add: dfs_inv_def)
  from dfs_inv_step [OF inv run fit, of h strategy]
  have lv': "level (current_node ?s') < num_levels" by (simp add: dfs_inv_def)
  show ?thesis
  proof (cases "num_covered_particles ?s' = num_covered_particles s")
    case True
    then have sel: "level ?n + 1 \<noteq> num_levels"
       and acc: "dfs_node_selector h (dfs_trace s @ [Dfs_load_node ?n]) ?n"
      by (auto simp: covered_dfs_loop_body BT_LEAVES_PER_NODE_def split: if_splits)
    then have "current_node ?s' = binary_tree_get_children_begin ?n"
      by (simp add: dfs_loop_body_def QUERY_NODE_LEVEL_def Let_def)
    then have "level (current_node ?s') = level ?n + 1"
      by (simp add: binary_tree_get_children_begin_def)
    with True sel lv show ?thesis
      by (simp add: dfs_measure_def)
  next
    case False
    then have more: "num_covered_particles s + 1 \<le> num_covered_particles ?s'"
      by (simp add: covered_dfs_loop_body split: if_splits)
    have "(num_particles - num_covered_particles ?s') * num_levels + num_levels
        \<le> (num_particles - num_covered_particles s) * num_levels"
    proof -
      have "num_particles - num_covered_particles ?s' + 1
          \<le> num_particles - num_covered_particles s"
        using more run by simp
      then have "(num_particles - num_covered_particles ?s' + 1) * num_levels
          \<le> (num_particles - num_covered_particles s) * num_levels"
        by (rule mult_le_mono1)
      then show ?thesis by simp
    qed
    with lv' lv show ?thesis
      by (simp add: dfs_measure_def)
  qed
qed

lemma dfs_while_terminates:
  assumes "1 \<le> num_levels" and "num_particles \<le> 2 ^ (num_levels - 1)"
  shows "\<exists>t. while_option (\<lambda>s. num_covered_particles s < num_particles)
          (dfs_loop_body h strategy num_levels) dfs_initial_state = Some t"
proof (rule measure_while_option_Some [where P = "dfs_inv num_levels"
      and f = "dfs_measure num_particles num_levels"])
  show "dfs_inv num_levels dfs_initial_state"
    using assms(1) by (rule dfs_inv_initial)
next
  fix s
  assume "dfs_inv num_levels s" and "num_covered_particles s < num_particles"
  then show "dfs_inv num_levels (dfs_loop_body h strategy num_levels s) \<and>
      dfs_measure num_particles num_levels (dfs_loop_body h strategy num_levels s)
        < dfs_measure num_particles num_levels s"
    using assms(2) by (simp add: dfs_inv_step dfs_measure_step)
qed


lemma dfs_trace_particle_step:
  assumes "level (current_node s) + 1 = num_levels"
  shows "dfs_trace (dfs_loop_body h strategy num_levels s) =
     dfs_trace s @
       [Dfs_load_particle (local_node_id (current_node s)),
        Dfs_particle_processor (local_node_id (current_node s))
          (dfs_particle_processor h
             (dfs_trace s @ [Dfs_load_particle (local_node_id (current_node s))])
             (local_node_id (current_node s)))]"
  using assms by (simp add: dfs_loop_body_def QUERY_PARTICLE_LEVEL_def Let_def)

lemma dfs_trace_node_step:
  assumes "level (current_node s) + 1 \<noteq> num_levels"
  shows "dfs_trace (dfs_loop_body h strategy num_levels s) =
     dfs_trace s @
       [Dfs_load_node (current_node s),
        Dfs_node_selector (current_node s)
          (dfs_node_selector h (dfs_trace s @ [Dfs_load_node (current_node s)])
             (current_node s))] @
       (if dfs_node_selector h (dfs_trace s @ [Dfs_load_node (current_node s)])
             (current_node s)
        then [] else [Dfs_unique_node_discard_event (current_node s)])"
  using assms by (simp add: dfs_loop_body_def QUERY_NODE_LEVEL_def Let_def)

section \<open>Progress and termination of the depth-first loop\<close>

lemma dfs_query_ends_within_padding:
  assumes "1 \<le> num_levels" and "num_particles \<le> 2 ^ (num_levels - 1)"
  shows "\<exists>t. dfs_query strategy h num_particles num_levels = Some t
           \<and> num_particles \<le> num_covered_particles t
           \<and> num_covered_particles t \<le> 2 ^ (num_levels - 1)"
proof -
  let ?b = "\<lambda>s. num_covered_particles s < num_particles"
  let ?c = "dfs_loop_body h strategy num_levels"
  from dfs_while_terminates [OF assms, of h strategy]
  obtain t where t: "while_option ?b ?c dfs_initial_state = Some t" ..
  have "dfs_inv num_levels t"
  proof (rule while_option_rule [where P = "dfs_inv num_levels", OF _ t])
    show "dfs_inv num_levels dfs_initial_state"
      using assms(1) by (rule dfs_inv_initial)
  next
    fix s
    assume "dfs_inv num_levels s" and "num_covered_particles s < num_particles"
    then show "dfs_inv num_levels (?c s)"
      using assms(2) by (rule dfs_inv_step)
  qed
  then have upper: "num_covered_particles t \<le> 2 ^ (num_levels - 1)"
    by (simp add: dfs_inv_def)
  from while_option_stop [OF t] have lower: "num_particles \<le> num_covered_particles t"
    by simp
  let ?t = "t\<lparr>dfs_trace := dfs_trace t @ [Dfs_at_query_exit]\<rparr>"
  have "dfs_query strategy h num_particles num_levels = Some ?t"
    by (simp add: dfs_query_def t)
  moreover have "num_particles \<le> num_covered_particles ?t"
    and "num_covered_particles ?t \<le> 2 ^ (num_levels - 1)"
    using lower upper by simp_all
  ultimately show ?thesis by blast
qed

text \<open>In particular the loop terminates for the tree the provider builds of any number
  of particles.\<close>

lemma dfs_query_ends_on_every_tree:
  "\<exists>t. dfs_query strategy h num_particles (get_effective_num_levels num_particles) = Some t
       \<and> num_particles \<le> num_covered_particles t
       \<and> num_covered_particles t \<le> get_effective_num_particles num_particles"
  unfolding get_effective_num_particles_def
  by (rule dfs_query_ends_within_padding) (rule effective_counts_fit)+

text \<open>
  C2, as the code has it. In a tree of at least one level whose padded particle count
  \<open>2 ^ (effective_num_levels - 1)\<close> is at least \<open>num_particles\<close>, under either strategy
  and any handler: a pass of the loop adds 1 to \<open>num_covered_particles\<close> at the particle
  level, adds \<open>BT_LEAVES_PER_NODE\<close> of the level when it prunes a node, and adds nothing
  when it accepts a node and descends; the loop terminates, and it ends with
  \<open>num_particles \<le> num_covered_particles \<le> 2 ^ (effective_num_levels - 1)\<close>.
\<close>

theorem dfs_covered_progress_and_termination:
  assumes "1 \<le> num_levels" and "num_particles \<le> 2 ^ (num_levels - 1)"
  shows "(\<forall>s. num_covered_particles (dfs_loop_body h strategy num_levels s) =
            num_covered_particles s +
              (if level (current_node s) + 1 = num_levels then 1
               else if dfs_node_selector h (dfs_trace s @ [Dfs_load_node (current_node s)])
                         (current_node s)
                    then 0
                    else BT_LEAVES_PER_NODE (level (current_node s)) num_levels))
       \<and> (\<exists>t. dfs_query strategy h num_particles num_levels = Some t
              \<and> num_particles \<le> num_covered_particles t
              \<and> num_covered_particles t \<le> 2 ^ (num_levels - 1))"
proof (intro conjI allI)
  show "\<exists>t. dfs_query strategy h num_particles num_levels = Some t
              \<and> num_particles \<le> num_covered_particles t
              \<and> num_covered_particles t \<le> 2 ^ (num_levels - 1)"
    using assms by (rule dfs_query_ends_within_padding)
qed (rule covered_dfs_loop_body)

theorem dfs_covered_progress_and_termination_witness:
  "(1::nat) \<le> 3 \<and> (3::nat) \<le> 2 ^ (3 - 1)
   \<and> (\<exists>t. dfs_query HIERARCHICAL_ITERATION_RELAXED dfs_reject_every_node 3 3 = Some t
          \<and> 3 \<le> num_covered_particles t \<and> num_covered_particles t \<le> 2 ^ (3 - 1))"
  using dfs_covered_progress_and_termination
    [of 3 3 dfs_reject_every_node HIERARCHICAL_ITERATION_RELAXED]
  by simp

text \<open>
  The counter need not end at \<open>num_particles\<close>, and it need not grow in every pass: with
  three particles in a tree of three levels, a handler that rejects the root leaves the
  loop with four covered slots; and the pass that accepts the root covers nothing.
\<close>

theorem dfs_covered_overshoots_counterexample:
  "map_option num_covered_particles
     (dfs_query HIERARCHICAL_ITERATION_STRICT dfs_reject_every_node 3 3) = Some 4
   \<and> num_covered_particles
       (dfs_loop_body dfs_accept_everything HIERARCHICAL_ITERATION_STRICT 3 dfs_initial_state)
     = num_covered_particles dfs_initial_state"
  by code_simp

section \<open>The two backtracking strategies\<close>







section \<open>The level loop of the breadth-first engine\<close>

lemma map_filter_app:
  "List.map_filter f (xs @ ys) = List.map_filter f xs @ List.map_filter f ys"
  by (simp add: map_filter_def)

lemma array_write_events: "list_all stray_store (fst (array_write a xs i v))"
  by (simp add: array_write_def)

lemma array_write_initial:
  "snd (array_write Available_nodes_local_id (replicate C None) 0 0) =
     (replicate C None)[0 := Some 0]"
  by (simp add: array_write_def)

lemma gather_selected_Cons:
  "gather_selected u C sel avail (i # js) (n, temp) =
     (if sel ! i
      then (fst (array_write Temp_new_node_ids temp n
                   (get_lnid_from_available_children_index u avail i))
              @ fst (gather_selected u C sel avail js
                       (min (n + 1) C,
                        snd (array_write Temp_new_node_ids temp n
                               (get_lnid_from_available_children_index u avail i)))),
            snd (gather_selected u C sel avail js
                   (min (n + 1) C,
                    snd (array_write Temp_new_node_ids temp n
                           (get_lnid_from_available_children_index u avail i)))))
      else gather_selected u C sel avail js (n, temp))"
  by (simp add: case_prod_beta)

lemma copy_new_node_ids_Cons:
  "copy_new_node_ids u (i # js) temp avail =
     (fst (array_write Available_nodes_local_id avail i
             (array_read u Temp_new_node_ids temp i))
        @ fst (copy_new_node_ids u js temp
                 (snd (array_write Available_nodes_local_id avail i
                         (array_read u Temp_new_node_ids temp i)))),
      snd (copy_new_node_ids u js temp
             (snd (array_write Available_nodes_local_id avail i
                     (array_read u Temp_new_node_ids temp i)))))"
  by (simp add: case_prod_beta)

lemma gather_selected_events:
  "list_all stray_store (fst (gather_selected u C sel avail js st))"
proof (induction js arbitrary: st)
  case Nil
  then show ?case by (cases st) simp
next
  case (Cons i js)
  obtain n temp where st: "st = (n, temp)" by (cases st)
  show ?case
    unfolding st gather_selected_Cons
    using Cons.IH by (simp add: array_write_events)
qed

lemma copy_new_node_ids_events:
  "list_all stray_store (fst (copy_new_node_ids u js temp avail))"
proof (induction js arbitrary: avail)
  case Nil
  then show ?case by simp
next
  case (Cons i js)
  show ?case
    unfolding copy_new_node_ids_Cons
    using Cons.IH by (simp add: array_write_events)
qed

lemma bfs_level_iteration_unfold:
  "bfs_level_iteration h u C num_particles num_levels lvl (n, avail) =
     (Bfs_node_selector lvl n avail (bfs_available_children u num_particles num_levels lvl n avail)
        # fst (gather_selected u C
                 (selection_map_after_selector h C lvl avail
                    (bfs_available_children u num_particles num_levels lvl n avail))
                 avail [0 ..< 2 * C] (0, replicate C None))
        @ fst (copy_new_node_ids u
                 [0 ..< fst (snd (gather_selected u C
                    (selection_map_after_selector h C lvl avail
                       (bfs_available_children u num_particles num_levels lvl n avail))
                    avail [0 ..< 2 * C] (0, replicate C None)))]
                 (snd (snd (gather_selected u C
                    (selection_map_after_selector h C lvl avail
                       (bfs_available_children u num_particles num_levels lvl n avail))
                    avail [0 ..< 2 * C] (0, replicate C None))))
                 avail),
      (fst (snd (gather_selected u C
              (selection_map_after_selector h C lvl avail
                 (bfs_available_children u num_particles num_levels lvl n avail))
              avail [0 ..< 2 * C] (0, replicate C None))),
       snd (copy_new_node_ids u
              [0 ..< fst (snd (gather_selected u C
                 (selection_map_after_selector h C lvl avail
                    (bfs_available_children u num_particles num_levels lvl n avail))
                 avail [0 ..< 2 * C] (0, replicate C None)))]
              (snd (snd (gather_selected u C
                 (selection_map_after_selector h C lvl avail
                    (bfs_available_children u num_particles num_levels lvl n avail))
                 avail [0 ..< 2 * C] (0, replicate C None))))
              avail)))"
  by (simp add: bfs_level_iteration_def Let_def case_prod_beta)

lemma bfs_level_iteration_events:
  "\<exists>stored. fst (bfs_level_iteration h u C num_particles num_levels lvl (n, avail)) =
       Bfs_node_selector lvl n avail
         (bfs_available_children u num_particles num_levels lvl n avail) # stored
     \<and> list_all stray_store stored"
  unfolding bfs_level_iteration_unfold
  by (simp add: gather_selected_events copy_new_node_ids_events)

lemma bfs_level_loop_stop:
  "\<not> lvl < 64 \<or> fst st = 0 \<or> lvl + 1 = num_levels \<Longrightarrow>
     bfs_level_loop h u C num_particles num_levels lvl st = ([], st)"
  by (subst bfs_level_loop.simps) auto

lemma bfs_level_loop_continue:
  "lvl < 64 \<Longrightarrow> fst st \<noteq> 0 \<Longrightarrow> lvl + 1 \<noteq> num_levels \<Longrightarrow>
     bfs_level_loop h u C num_particles num_levels lvl st =
       (fst (bfs_level_iteration h u C num_particles num_levels lvl st)
          @ fst (bfs_level_loop h u C num_particles num_levels (lvl + 1)
                   (snd (bfs_level_iteration h u C num_particles num_levels lvl st))),
        snd (bfs_level_loop h u C num_particles num_levels (lvl + 1)
               (snd (bfs_level_iteration h u C num_particles num_levels lvl st))))"
  by (subst bfs_level_loop.simps) (simp add: case_prod_beta)

lemma bfs_node_levels_stray_stores:
  "list_all stray_store events \<Longrightarrow> bfs_node_levels events = []"
proof (induction events)
  case Nil
  then show ?case by (simp add: bfs_node_levels_def map_filter_simps)
next
  case (Cons e events)
  then show ?case
    by (cases e) (simp_all add: bfs_node_levels_def map_filter_simps)
qed

lemma bfs_node_levels_append:
  "bfs_node_levels (xs @ ys) = bfs_node_levels xs @ bfs_node_levels ys"
  by (simp add: bfs_node_levels_def map_filter_app)

lemma bfs_level_loop_levels:
  "lvl \<le> 64 \<Longrightarrow>
   \<exists>k. lvl + k \<le> 64 \<and>
       bfs_node_levels (fst (bfs_level_loop h u C num_particles num_levels lvl st))
         = [lvl ..< lvl + k]"
proof (induction h u C num_particles num_levels lvl st rule: bfs_level_loop.induct)
  case (1 h u C num_particles num_levels lvl st)
  obtain n avail where st: "st = (n, avail)" by (cases st)
  show ?case
  proof (cases "\<not> lvl < 64 \<or> fst st = 0 \<or> lvl + 1 = num_levels")
    case True
    then have "bfs_level_loop h u C num_particles num_levels lvl st = ([], st)"
      by (rule bfs_level_loop_stop)
    then show ?thesis
      using "1.prems" by (intro exI [of _ 0]) (simp add: bfs_node_levels_def map_filter_simps)
  next
    case False
    then have go: "lvl < 64" "fst st \<noteq> 0" "lvl + 1 \<noteq> num_levels" by auto
    let ?it = "bfs_level_iteration h u C num_particles num_levels lvl st"
    let ?later = "bfs_level_loop h u C num_particles num_levels (lvl + 1) (snd ?it)"
    from bfs_level_iteration_events [of h u C num_particles num_levels lvl n avail] st
    obtain cnt stored where it: "fst ?it = Bfs_node_selector lvl n avail cnt # stored"
      and stored: "list_all stray_store stored"
      by auto
    have here: "bfs_node_levels (fst ?it) = [lvl]"
    proof -
      have "bfs_node_levels (fst ?it) = bfs_node_levels ([Bfs_node_selector lvl n avail cnt] @ stored)"
        using it by simp
      also have "\<dots> = bfs_node_levels [Bfs_node_selector lvl n avail cnt] @ bfs_node_levels stored"
        by (rule bfs_node_levels_append)
      also have "\<dots> = [lvl]"
        using bfs_node_levels_stray_stores [OF stored]
        by (simp add: bfs_node_levels_def map_filter_simps)
      finally show ?thesis .
    qed
    from go have "lvl + 1 \<le> 64" by simp
    from "1.IH" [OF go(1) _ _ this, of "fst ?it" "snd ?it"] go
    obtain k where k: "lvl + 1 + k \<le> 64"
      and lv: "bfs_node_levels (fst ?later) = [lvl + 1 ..< lvl + 1 + k]"
      by auto
    have "fst (bfs_level_loop h u C num_particles num_levels lvl st) = fst ?it @ fst ?later"
      using go by (simp add: bfs_level_loop_continue)
    then have "bfs_node_levels (fst (bfs_level_loop h u C num_particles num_levels lvl st))
        = lvl # [lvl + 1 ..< lvl + 1 + k]"
      using here lv by (simp add: bfs_node_levels_append)
    also have "\<dots> = [lvl ..< lvl + (k + 1)]"
      by (simp add: upt_conv_Cons)
    finally show ?thesis
      using k by (intro exI [of _ "k + 1"]) simp
  qed
qed

lemma bfs_available_children_expected:
  "bfs_available_children u num_particles num_levels lvl n avail =
     expected_candidates u num_particles num_levels lvl n avail"
  by (simp add: bfs_available_children_def expected_candidates_def rightmost_candidate_def
      Let_def)

lemma bfs_level_loop_events:
  "\<forall>e \<in> set (fst (bfs_level_loop h u C num_particles num_levels lvl st)).
     stray_store e \<or>
     (live_working_set e \<and> candidate_count_ok u num_particles num_levels e)"
proof (induction h u C num_particles num_levels lvl st rule: bfs_level_loop.induct)
  case (1 h u C num_particles num_levels lvl st)
  obtain n avail where st: "st = (n, avail)" by (cases st)
  show ?case
  proof (cases "\<not> lvl < 64 \<or> fst st = 0 \<or> lvl + 1 = num_levels")
    case True
    then have "bfs_level_loop h u C num_particles num_levels lvl st = ([], st)"
      by (rule bfs_level_loop_stop)
    then show ?thesis by simp
  next
    case False
    then have go: "lvl < 64" "fst st \<noteq> 0" "lvl + 1 \<noteq> num_levels" by auto
    let ?it = "bfs_level_iteration h u C num_particles num_levels lvl st"
    let ?later = "bfs_level_loop h u C num_particles num_levels (lvl + 1) (snd ?it)"
    let ?ev = "Bfs_node_selector lvl n avail
        (bfs_available_children u num_particles num_levels lvl n avail)"
    from bfs_level_iteration_events [of h u C num_particles num_levels lvl n avail] st
    obtain stored where it: "fst ?it = ?ev # stored"
      and stored: "list_all stray_store stored"
      by auto
    from "1.IH" [OF go(1) _ _, of "fst ?it" "snd ?it"] go
    have later: "\<forall>e \<in> set (fst ?later).
       stray_store e \<or>
       (live_working_set e \<and> candidate_count_ok u num_particles num_levels e)"
      by simp
    have asked: "live_working_set ?ev \<and> candidate_count_ok u num_particles num_levels ?ev"
      using go(2) st by (simp add: bfs_available_children_expected)
    have eq: "fst (bfs_level_loop h u C num_particles num_levels lvl st) =
        ?ev # stored @ fst ?later"
      using go it by (simp add: bfs_level_loop_continue)
    have strays: "\<forall>e \<in> set stored. stray_store e"
      using stored by (simp add: list_all_iff)
    show ?thesis
    proof
      fix e
      assume "e \<in> set (fst (bfs_level_loop h u C num_particles num_levels lvl st))"
      then consider "e = ?ev" | "e \<in> set stored" | "e \<in> set (fst ?later)"
        unfolding eq by auto
      then show "stray_store e \<or>
          (live_working_set e \<and> candidate_count_ok u num_particles num_levels e)"
      proof cases
        case 1
        with asked show ?thesis by simp
      next
        case 2
        with strays show ?thesis by simp
      next
        case 3
        with later show ?thesis by simp
      qed
    qed
  qed
qed

lemma bfs_particle_pass_levels:
  "bfs_node_levels (bfs_particle_pass u num_particles st) = []"
  by (cases st) (simp add: bfs_particle_pass_def bfs_node_levels_def map_filter_simps)

lemma bfs_particle_pass_events:
  "\<forall>e \<in> set (bfs_particle_pass u num_particles st).
     live_working_set e \<and> candidate_count_ok u num_particles num_levels e"
proof -
  obtain n avail where st: "st = (n, avail)" by (cases st)
  have lv: "BT_LEAVES_PER_NODE (level (rightmost_candidate (num_levels - 1) p)) num_levels = 1"
    for p
    by (simp add: rightmost_candidate_def binary_tree_get_children_last_def
        binary_tree_key_init_def BT_LEAVES_PER_NODE_def)
  have id: "local_node_id (rightmost_candidate (num_levels - 1) p) = 2 * p + 1" for p
    by (simp add: rightmost_candidate_def binary_tree_get_children_last_def
        binary_tree_key_init_def BT_LOCAL_NODE_ID_OF_LEFT_CHILD_def)
  have used: "binary_tree_is_node_used (rightmost_candidate (num_levels - 1) p)
      num_levels num_particles \<longleftrightarrow> 2 * p + 1 < num_particles" for p
    unfolding binary_tree_is_node_used_def lv id by simp
  show ?thesis
  proof (cases "n > 0")
    case False
    with st show ?thesis by (simp add: bfs_particle_pass_def)
  next
    case True
    then have idx: "(2 * n - 1) div 2 = n - 1" "(2 * n - 1) mod 2 = 1"
      by presburger+
    let ?p = "array_read u Available_nodes_local_id avail (n - 1)"
    have lnid: "get_lnid_from_available_children_index u avail (2 * n - 1) = 2 * ?p + 1"
      unfolding get_lnid_from_available_children_index_def idx
        BT_LOCAL_NODE_ID_OF_LEFT_CHILD_def
      by simp
    have ev: "bfs_particle_pass u num_particles st =
        [Bfs_particle_processor n avail
           (if 2 * ?p + 1 \<ge> num_particles then 2 * n - 1 else 2 * n)]"
      using True lnid by (simp add: bfs_particle_pass_def st)
    have "expected_candidates u num_particles num_levels (num_levels - 1) n avail =
        (if 2 * ?p + 1 < num_particles then 2 * n else 2 * n - 1)"
      unfolding expected_candidates_def used by simp
    then show ?thesis
      unfolding ev using True by (simp add: not_le)
  qed
qed

lemma bfs_query_unfold:
  "bfs_query h u C num_particles num_levels =
     Bfs_at_query_init #
       (fst (array_write Available_nodes_local_id (replicate C None) 0 0)
          @ fst (bfs_level_loop h u C num_particles num_levels 1
                   (1, (replicate C None)[0 := Some 0]))
          @ bfs_particle_pass u num_particles
              (snd (bfs_level_loop h u C num_particles num_levels 1
                      (1, (replicate C None)[0 := Some 0]))))
       @ [Bfs_at_query_exit]"
  by (simp add: bfs_query_def case_prod_beta array_write_initial)

section \<open>Hooks, candidate counts and the bound on the level loop\<close>

text \<open>
  C10. Whatever the tree and the handler, the node levels for which a query invokes the
  node selector are \<open>1, 2, \<dots>, k\<close> for some \<open>k \<le> 63\<close>: the level loop makes at most 63
  passes, also when neither of its stop conditions ever holds.
\<close>

theorem bfs_at_most_63_node_levels:
  "\<exists>k \<le> 63. bfs_node_levels (bfs_query h u C num_particles num_levels) = [1 ..< Suc k]"
proof -
  let ?loop = "bfs_level_loop h u C num_particles num_levels 1
      (1, (replicate C None)[0 := Some 0])"
  from bfs_level_loop_levels [of 1 h u C num_particles num_levels
      "(1, (replicate C None)[0 := Some 0])"]
  obtain k where k: "1 + k \<le> 64" and lv: "bfs_node_levels (fst ?loop) = [1 ..< 1 + k]"
    by auto
  have first: "bfs_node_levels (fst (array_write Available_nodes_local_id (replicate C None) 0 0))
      = []"
    by (intro bfs_node_levels_stray_stores array_write_events)
  have pass: "bfs_node_levels (bfs_particle_pass u num_particles (snd ?loop)) = []"
    by (rule bfs_particle_pass_levels)
  have hooks: "bfs_node_levels [Bfs_at_query_init] = []" "bfs_node_levels [Bfs_at_query_exit] = []"
    by (simp_all add: bfs_node_levels_def map_filter_simps)
  have "bfs_query h u C num_particles num_levels =
      [Bfs_at_query_init]
        @ fst (array_write Available_nodes_local_id (replicate C None) 0 0)
        @ fst ?loop @ bfs_particle_pass u num_particles (snd ?loop) @ [Bfs_at_query_exit]"
    by (simp add: bfs_query_unfold)
  then have "bfs_node_levels (bfs_query h u C num_particles num_levels)
      = bfs_node_levels (fst ?loop)"
    by (simp only: bfs_node_levels_append first pass hooks append_Nil append_Nil2)
  with lv k show ?thesis by (intro exI [of _ k]) simp
qed

text \<open>The bound is reached: in a tree of one level the test for the particle level never
  holds, and a handler that keeps one candidate alive is asked at all 63 levels.\<close>

theorem bfs_at_most_63_node_levels_witness:
  "(\<exists>k \<le> 63. bfs_node_levels (bfs_query bfs_select_first zeroed_storage 1 1 1) = [1 ..< Suc k])
   \<and> bfs_node_levels (bfs_query bfs_select_first zeroed_storage 1 1 1) = [1 ..< 64]"
proof -
  have "bfs_node_levels (bfs_query bfs_select_first zeroed_storage 1 1 1) = [1 ..< 64]"
    by code_simp
  with bfs_at_most_63_node_levels [of bfs_select_first zeroed_storage 1 1 1] show ?thesis
    by (intro conjI)
qed

text \<open>
  C6. At every node level and in the particle pass, the number of candidates offered to
  the handler is twice the number of live nodes, less one exactly when the rightmost
  candidate, the last child of the last live node, is not used with respect to
  \<open>num_particles\<close>. The padded particle count is no parameter of the query at all.
\<close>

theorem bfs_candidate_counts:
  "\<forall>e \<in> set (bfs_query h u C num_particles num_levels).
     candidate_count_ok u num_particles num_levels e"
proof
  fix e
  assume e: "e \<in> set (bfs_query h u C num_particles num_levels)"
  let ?loop = "bfs_level_loop h u C num_particles num_levels 1
      (1, (replicate C None)[0 := Some 0])"
  have stray: "candidate_count_ok u num_particles num_levels e" if "stray_store e"
    using that by (cases e) simp_all
  from e consider "e = Bfs_at_query_init"
    | "e \<in> set (fst (array_write Available_nodes_local_id (replicate C None) 0 0))"
    | "e \<in> set (fst ?loop)"
    | "e \<in> set (bfs_particle_pass u num_particles (snd ?loop))"
    | "e = Bfs_at_query_exit"
    unfolding bfs_query_unfold by auto
  then show "candidate_count_ok u num_particles num_levels e"
  proof cases
    case 1
    then show ?thesis by simp
  next
    case 2
    with array_write_events [of Available_nodes_local_id "replicate C None" 0 0]
    have "stray_store e" by (simp add: list_all_iff)
    then show ?thesis by (rule stray)
  next
    case 3
    with bfs_level_loop_events [of h u C num_particles num_levels 1
        "(1, (replicate C None)[0 := Some 0])"]
    show ?thesis using stray by blast
  next
    case 4
    with bfs_particle_pass_events [of u num_particles "snd ?loop" num_levels]
    show ?thesis by blast
  next
    case 5
    then show ?thesis by simp
  qed
qed

theorem bfs_candidate_counts_witness:
  "bfs_query bfs_select_all zeroed_storage 4 6 4 =
     [Bfs_at_query_init,
      Bfs_node_selector 1 1 [Some 0, None, None, None] 2,
      Bfs_node_selector 2 2 [Some 0, Some 1, None, None] 3,
      Bfs_particle_processor 3 [Some 0, Some 1, Some 2, None] 6,
      Bfs_at_query_exit]
   \<and> list_all (candidate_count_ok zeroed_storage 6 4)
       (bfs_query bfs_select_all zeroed_storage 4 6 4)"
proof -
  have "bfs_query bfs_select_all zeroed_storage 4 6 4 =
     [Bfs_at_query_init,
      Bfs_node_selector 1 1 [Some 0, None, None, None] 2,
      Bfs_node_selector 2 2 [Some 0, Some 1, None, None] 3,
      Bfs_particle_processor 3 [Some 0, Some 1, Some 2, None] 6,
      Bfs_at_query_exit]"
    by code_simp
  moreover have "list_all (candidate_count_ok zeroed_storage 6 4)
      (bfs_query bfs_select_all zeroed_storage 4 6 4)"
    using bfs_candidate_counts [of bfs_select_all zeroed_storage 4 6 4]
    by (simp only: list_all_iff)
  ultimately show ?thesis by (intro conjI)
qed

text \<open>
  C7. Every query is \<open>at_query_init\<close>, the traversal, \<open>at_query_exit\<close>: whatever the
  handler marks, whatever the capacity and the tree, the first event of a query is
  \<open>at_query_init\<close>, the last is \<open>at_query_exit\<close>, and neither hook runs in between.
  Between them there are only selectors invoked with a live working set and stores
  outside an array; so a working set that became empty leads to \<open>at_query_exit\<close>
  without a particle pass, and a handler that marks more candidates than the capacity
  holds does not keep the query from \<open>at_query_exit\<close>.
\<close>

theorem bfs_init_and_exit_hooks:
  "\<exists>middle. bfs_query h u C num_particles num_levels =
       Bfs_at_query_init # middle @ [Bfs_at_query_exit]
     \<and> Bfs_at_query_init \<notin> set middle
     \<and> Bfs_at_query_exit \<notin> set middle
     \<and> (\<forall>e \<in> set middle. live_working_set e \<or> stray_store e)"
proof -
  let ?loop = "bfs_level_loop h u C num_particles num_levels 1
      (1, (replicate C None)[0 := Some 0])"
  let ?first = "fst (array_write Available_nodes_local_id (replicate C None) 0 0)"
  let ?pass = "bfs_particle_pass u num_particles (snd ?loop)"
  let ?middle = "?first @ fst ?loop @ ?pass"
  have "\<forall>e \<in> set ?first. stray_store e"
    using array_write_events [of Available_nodes_local_id "replicate C None" 0 0]
    by (simp add: list_all_iff)
  moreover have "\<forall>e \<in> set (fst ?loop). live_working_set e \<or> stray_store e"
    using bfs_level_loop_events [of h u C num_particles num_levels 1
        "(1, (replicate C None)[0 := Some 0])"]
    by blast
  moreover have "\<forall>e \<in> set ?pass. live_working_set e"
    using bfs_particle_pass_events [of u num_particles "snd ?loop" num_levels]
    by blast
  ultimately have mid: "\<forall>e \<in> set ?middle. live_working_set e \<or> stray_store e"
    by auto
  then have "Bfs_at_query_init \<notin> set ?middle" "Bfs_at_query_exit \<notin> set ?middle"
    by fastforce+
  moreover have "bfs_query h u C num_particles num_levels =
      Bfs_at_query_init # ?middle @ [Bfs_at_query_exit]"
    by (simp add: bfs_query_unfold)
  ultimately show ?thesis
    using mid by blast
qed

text \<open>Two queries of the tree of six particles: a handler that marks nothing empties the
  working set at level 1, and a handler that marks every candidate overruns a capacity
  of 1 at both node levels.\<close>

theorem bfs_init_and_exit_hooks_witness:
  "bfs_query bfs_select_none zeroed_storage 3 6 4 =
       [Bfs_at_query_init, Bfs_node_selector 1 1 [Some 0, None, None] 2, Bfs_at_query_exit]
   \<and> bfs_query bfs_select_all zeroed_storage 1 6 4 =
       [Bfs_at_query_init,
        Bfs_node_selector 1 1 [Some 0] 2,
        Bfs_fault (Write_out_of_bounds Temp_new_node_ids 1),
        Bfs_node_selector 2 1 [Some 0] 2,
        Bfs_fault (Write_out_of_bounds Temp_new_node_ids 1),
        Bfs_particle_processor 1 [Some 0] 2,
        Bfs_at_query_exit]
   \<and> (\<exists>middle. bfs_query bfs_select_none zeroed_storage 3 6 4 =
            Bfs_at_query_init # middle @ [Bfs_at_query_exit]
          \<and> Bfs_at_query_init \<notin> set middle
          \<and> Bfs_at_query_exit \<notin> set middle
          \<and> list_all (\<lambda>e. live_working_set e \<or> stray_store e) middle)
   \<and> (\<exists>middle. bfs_query bfs_select_all zeroed_storage 1 6 4 =
            Bfs_at_query_init # middle @ [Bfs_at_query_exit]
          \<and> Bfs_at_query_init \<notin> set middle
          \<and> Bfs_at_query_exit \<notin> set middle
          \<and> list_all (\<lambda>e. live_working_set e \<or> stray_store e) middle)"
proof -
  have none: "bfs_query bfs_select_none zeroed_storage 3 6 4 =
       [Bfs_at_query_init, Bfs_node_selector 1 1 [Some 0, None, None] 2, Bfs_at_query_exit]"
    by code_simp
  have all: "bfs_query bfs_select_all zeroed_storage 1 6 4 =
       [Bfs_at_query_init,
        Bfs_node_selector 1 1 [Some 0] 2,
        Bfs_fault (Write_out_of_bounds Temp_new_node_ids 1),
        Bfs_node_selector 2 1 [Some 0] 2,
        Bfs_fault (Write_out_of_bounds Temp_new_node_ids 1),
        Bfs_particle_processor 1 [Some 0] 2,
        Bfs_at_query_exit]"
    by code_simp
  from bfs_init_and_exit_hooks [of bfs_select_none zeroed_storage 3 6 4]
  have a: "\<exists>middle. bfs_query bfs_select_none zeroed_storage 3 6 4 =
            Bfs_at_query_init # middle @ [Bfs_at_query_exit]
          \<and> Bfs_at_query_init \<notin> set middle
          \<and> Bfs_at_query_exit \<notin> set middle
          \<and> list_all (\<lambda>e. live_working_set e \<or> stray_store e) middle"
    unfolding list_all_iff .
  from bfs_init_and_exit_hooks [of bfs_select_all zeroed_storage 1 6 4]
  have b: "\<exists>middle. bfs_query bfs_select_all zeroed_storage 1 6 4 =
            Bfs_at_query_init # middle @ [Bfs_at_query_exit]
          \<and> Bfs_at_query_init \<notin> set middle
          \<and> Bfs_at_query_exit \<notin> set middle
          \<and> list_all (\<lambda>e. live_working_set e \<or> stray_store e) middle"
    unfolding list_all_iff .
  from none all a b show ?thesis by (intro conjI)
qed

section \<open>What the gathering loop leaves in the id array\<close>

lemma array_write_in_range:
  "i < length xs \<Longrightarrow> array_write a xs i v = ([], xs[i := Some v])"
  by (simp add: array_write_def)

lemma array_write_out_of_range:
  "\<not> i < length xs \<Longrightarrow> array_write a xs i v = ([Bfs_fault (Write_out_of_bounds a i)], xs)"
  by (simp add: array_write_def)

lemma marked_candidates_filter:
  "marked_candidates h C lvl avail cnt =
     filter (bfs_node_selector h lvl avail cnt) [0 ..< 2 * C]"
  unfolding marked_candidates_def selection_map_after_selector_def
  by (rule filter_cong) simp_all

lemma gather_selected_result:
  assumes "length temp = C" and "n0 \<le> C"
  shows "fst (snd (gather_selected u C sel avail js (n0, temp)))
           = min C (n0 + length (filter (\<lambda>i. sel ! i) js))
       \<and> length (snd (snd (gather_selected u C sel avail js (n0, temp)))) = C
       \<and> take (min C (n0 + length (filter (\<lambda>i. sel ! i) js)))
            (snd (snd (gather_selected u C sel avail js (n0, temp))))
           = take (min C (n0 + length (filter (\<lambda>i. sel ! i) js)))
               (take n0 temp
                  @ map (\<lambda>i. Some (get_lnid_from_available_children_index u avail i))
                      (filter (\<lambda>i. sel ! i) js))
       \<and> fst (gather_selected u C sel avail js (n0, temp))
           = replicate (n0 + length (filter (\<lambda>i. sel ! i) js) - C)
               (Bfs_fault (Write_out_of_bounds Temp_new_node_ids C))"
  using assms
proof (induction js arbitrary: n0 temp)
  case Nil
  then show ?case by simp
next
  case (Cons i js)
  let ?v = "get_lnid_from_available_children_index u avail i"
  let ?rest = "map (\<lambda>i. Some (get_lnid_from_available_children_index u avail i))
      (filter (\<lambda>i. sel ! i) js)"
  let ?k = "length (filter (\<lambda>i. sel ! i) js)"
  show ?case
  proof (cases "sel ! i")
    case False
    have "gather_selected u C sel avail (i # js) (n0, temp)
        = gather_selected u C sel avail js (n0, temp)"
      unfolding gather_selected_Cons using False by simp
    with Cons.IH [OF Cons.prems] False show ?thesis by simp
  next
    case True
    then have flt: "filter (\<lambda>i. sel ! i) (i # js) = i # filter (\<lambda>i. sel ! i) js"
      by simp
    show ?thesis
    proof (cases "n0 < C")
      case room: True
      let ?temp1 = "temp[n0 := Some ?v]"
      let ?g = "gather_selected u C sel avail js (n0 + 1, ?temp1)"
      from room Cons.prems(1)
      have wr: "array_write Temp_new_node_ids temp n0 ?v = ([], ?temp1)"
        by (simp add: array_write_in_range)
      from room have m: "min (n0 + 1) C = n0 + 1" by simp
      have step: "gather_selected u C sel avail (i # js) (n0, temp) = ?g"
        unfolding gather_selected_Cons wr m using True by simp
      have "length ?temp1 = C" using Cons.prems(1) by simp
      moreover have "n0 + 1 \<le> C" using room by simp
      ultimately have ih: "fst (snd ?g) = min C (n0 + 1 + ?k)
         \<and> length (snd (snd ?g)) = C
         \<and> take (min C (n0 + 1 + ?k)) (snd (snd ?g))
             = take (min C (n0 + 1 + ?k)) (take (n0 + 1) ?temp1 @ ?rest)
         \<and> fst ?g = replicate (n0 + 1 + ?k - C)
                       (Bfs_fault (Write_out_of_bounds Temp_new_node_ids C))"
        by (rule Cons.IH)
      have tk: "take (n0 + 1) ?temp1 = take n0 temp @ [Some ?v]"
        using room Cons.prems(1) by (simp add: take_Suc_conv_app_nth)
      have cnt: "n0 + length (filter (\<lambda>i. sel ! i) (i # js)) = n0 + 1 + ?k"
        unfolding flt by simp
      show ?thesis
        unfolding step cnt using ih unfolding tk flt by simp
    next
      case False
      with Cons.prems(2) have full: "n0 = C" by simp
      let ?g = "gather_selected u C sel avail js (C, temp)"
      from Cons.prems(1)
      have wr: "array_write Temp_new_node_ids temp C ?v
          = ([Bfs_fault (Write_out_of_bounds Temp_new_node_ids C)], temp)"
        by (simp add: array_write_out_of_range)
      have m: "min (C + 1) C = C" by simp
      have step: "gather_selected u C sel avail (i # js) (n0, temp)
          = (Bfs_fault (Write_out_of_bounds Temp_new_node_ids C) # fst ?g, snd ?g)"
        unfolding full gather_selected_Cons wr m using True by simp
      have ih: "fst (snd ?g) = min C (C + ?k)
         \<and> length (snd (snd ?g)) = C
         \<and> take (min C (C + ?k)) (snd (snd ?g))
             = take (min C (C + ?k)) (take C temp @ ?rest)
         \<and> fst ?g = replicate (C + ?k - C)
                       (Bfs_fault (Write_out_of_bounds Temp_new_node_ids C))"
        by (rule Cons.IH) (use Cons.prems(1) in simp_all)
      have m1: "min C (C + ?k) = C" "min C (n0 + length (filter (\<lambda>i. sel ! i) (i # js))) = C"
        "C + ?k - C = ?k" "n0 + length (filter (\<lambda>i. sel ! i) (i # js)) - C = Suc ?k"
        unfolding full flt by simp_all
      have a: "take C (take C temp @ ?rest) = take C temp"
        using Cons.prems(1) by simp
      have b: "take C (take n0 temp
          @ map (\<lambda>i. Some (get_lnid_from_available_children_index u avail i))
              (filter (\<lambda>i. sel ! i) (i # js))) = take C temp"
        unfolding full using Cons.prems(1) by simp
      show ?thesis
        unfolding step m1 b using ih unfolding m1 a by simp
    qed
  qed
qed

lemma copy_new_node_ids_result:
  assumes "n' \<le> length avail" and "k \<le> n'"
  shows "fst (copy_new_node_ids u [k ..< n'] temp avail) = []
       \<and> length (snd (copy_new_node_ids u [k ..< n'] temp avail)) = length avail
       \<and> (\<forall>j. snd (copy_new_node_ids u [k ..< n'] temp avail) ! j =
               (if k \<le> j \<and> j < n' then Some (array_read u Temp_new_node_ids temp j)
                else avail ! j))"
  using assms
proof (induction "n' - k" arbitrary: k avail)
  case 0
  then have e: "[k ..< n'] = []" by simp
  show ?case
    unfolding e using 0 by auto
next
  case (Suc d)
  then have k: "k < n'" by simp
  then have upt: "[k ..< n'] = k # [Suc k ..< n']" by (simp add: upt_conv_Cons)
  let ?v = "array_read u Temp_new_node_ids temp k"
  let ?avail1 = "avail[k := Some ?v]"
  let ?c = "copy_new_node_ids u [Suc k ..< n'] temp ?avail1"
  from k Suc.prems have wr: "array_write Available_nodes_local_id avail k ?v = ([], ?avail1)"
    by (simp add: array_write_in_range)
  have step: "copy_new_node_ids u [k ..< n'] temp avail = ?c"
    unfolding upt copy_new_node_ids_Cons wr by simp
  have "d = n' - Suc k" using Suc.hyps(2) by simp
  moreover have "n' \<le> length ?avail1" using Suc.prems(1) by simp
  moreover have "Suc k \<le> n'" using k by simp
  ultimately have ih: "fst ?c = [] \<and> length (snd ?c) = length ?avail1
       \<and> (\<forall>j. snd ?c ! j =
               (if Suc k \<le> j \<and> j < n' then Some (array_read u Temp_new_node_ids temp j)
                else ?avail1 ! j))"
    by (rule Suc.hyps(1))
  have "snd ?c ! j = (if k \<le> j \<and> j < n' then Some (array_read u Temp_new_node_ids temp j)
                else avail ! j)" for j
  proof (cases "j = k")
    case True
    with ih k Suc.prems(1) show ?thesis by simp
  next
    case False
    with ih show ?thesis by auto
  qed
  with ih show ?case
    unfolding step by simp
qed

text \<open>
  One pass of the level loop, whatever the handler marks: the node selector is invoked
  once; the new live count is the number of marked entries, or the capacity if more are
  marked; the live entries of the id array are the ids of the first marked entries; and
  each marked entry beyond the capacity is one store to
  \<open>temp_new_node_ids [Max_selected_nodes]\<close>.
\<close>

lemma bfs_level_iteration_result:
  assumes len: "length avail = C"
  shows "\<exists>stored avail'.
     bfs_level_iteration h u C num_particles num_levels lvl (n, avail) =
       (Bfs_node_selector lvl n avail
          (bfs_available_children u num_particles num_levels lvl n avail) # stored,
        (min C (length (marked_candidates h C lvl avail
                          (bfs_available_children u num_particles num_levels lvl n avail))),
         avail'))
     \<and> stored =
           replicate
             (length (marked_candidates h C lvl avail
                        (bfs_available_children u num_particles num_levels lvl n avail)) - C)
             (Bfs_fault (Write_out_of_bounds Temp_new_node_ids C))
     \<and> length avail' = C
     \<and> (\<forall>j < min C (length (marked_candidates h C lvl avail
                               (bfs_available_children u num_particles num_levels lvl n avail))).
          avail' ! j =
            Some (get_lnid_from_available_children_index u avail
                    (marked_candidates h C lvl avail
                       (bfs_available_children u num_particles num_levels lvl n avail) ! j)))"
proof -
  let ?cnt = "bfs_available_children u num_particles num_levels lvl n avail"
  let ?sel = "selection_map_after_selector h C lvl avail ?cnt"
  let ?idx = "marked_candidates h C lvl avail ?cnt"
  let ?g = "gather_selected u C ?sel avail [0 ..< 2 * C] (0, replicate C None)"
  let ?n' = "min C (length ?idx)"
  let ?temp' = "snd (snd ?g)"
  let ?c = "copy_new_node_ids u [0 ..< ?n'] ?temp' avail"
  have g: "fst (snd ?g) = ?n'"
    and lent: "length ?temp' = C"
    and tk: "take ?n' ?temp' =
       take ?n' (map (\<lambda>i. Some (get_lnid_from_available_children_index u avail i)) ?idx)"
    and stored: "fst ?g = replicate (length ?idx - C)
        (Bfs_fault (Write_out_of_bounds Temp_new_node_ids C))"
    using gather_selected_result [of "replicate C None" C 0 u ?sel avail "[0 ..< 2 * C]"]
    by (simp_all add: marked_candidates_def)
  have written: "array_read u Temp_new_node_ids ?temp' j =
      get_lnid_from_available_children_index u avail (?idx ! j)" if "j < ?n'" for j
  proof -
    from that have "?temp' ! j = take ?n' ?temp' ! j" by simp
    also have "\<dots> = Some (get_lnid_from_available_children_index u avail (?idx ! j))"
      unfolding tk using that by simp
    finally show ?thesis
      using that lent by (simp add: array_read_def)
  qed
  have "?n' \<le> length avail" using len by simp
  from copy_new_node_ids_result [OF this, of 0 u ?temp']
  have c: "fst ?c = []" and lenc: "length (snd ?c) = C"
    and nth: "\<forall>j. snd ?c ! j =
       (if j < ?n' then Some (array_read u Temp_new_node_ids ?temp' j) else avail ! j)"
    using len by simp_all
  have "bfs_level_iteration h u C num_particles num_levels lvl (n, avail) =
      (Bfs_node_selector lvl n avail ?cnt # fst ?g, (?n', snd ?c))"
    unfolding bfs_level_iteration_unfold g c by simp
  moreover have "\<forall>j < ?n'. snd ?c ! j =
      Some (get_lnid_from_available_children_index u avail (?idx ! j))"
    using nth written by simp
  ultimately show ?thesis
    using stored lenc by blast
qed

section \<open>The capacity of the candidate arrays\<close>

text \<open>
  The live count after a level never exceeds \<open>Max_selected_nodes\<close>, for any handler, and
  the id array keeps its size. The only store outside an array that a query with a
  capacity of at least 1 makes is the store to \<open>temp_new_node_ids [Max_selected_nodes]\<close>.
\<close>

lemma bfs_level_loop_within_capacity:
  "length (snd st) = C \<Longrightarrow> fst st \<le> C \<Longrightarrow>
     (\<forall>e \<in> set (fst (bfs_level_loop h u C num_particles num_levels lvl st)).
        within_capacity C e)
     \<and> fst (snd (bfs_level_loop h u C num_particles num_levels lvl st)) \<le> C
     \<and> length (snd (snd (bfs_level_loop h u C num_particles num_levels lvl st))) = C"
proof (induction h u C num_particles num_levels lvl st rule: bfs_level_loop.induct)
  case (1 h u C num_particles num_levels lvl st)
  obtain n avail where st: "st = (n, avail)" by (cases st)
  show ?case
  proof (cases "\<not> lvl < 64 \<or> fst st = 0 \<or> lvl + 1 = num_levels")
    case True
    then have "bfs_level_loop h u C num_particles num_levels lvl st = ([], st)"
      by (rule bfs_level_loop_stop)
    with "1.prems" show ?thesis by simp
  next
    case False
    then have go: "lvl < 64" "fst st \<noteq> 0" "lvl + 1 \<noteq> num_levels" by auto
    let ?it = "bfs_level_iteration h u C num_particles num_levels lvl st"
    let ?later = "bfs_level_loop h u C num_particles num_levels (lvl + 1) (snd ?it)"
    let ?ev = "Bfs_node_selector lvl n avail
        (bfs_available_children u num_particles num_levels lvl n avail)"
    let ?idx = "marked_candidates h C lvl avail
        (bfs_available_children u num_particles num_levels lvl n avail)"
    from "1.prems" st have len: "length avail = C" and n: "n \<le> C" by simp_all
    from bfs_level_iteration_result [OF len, of h u num_particles num_levels lvl n]
    obtain stored avail' where
      r: "bfs_level_iteration h u C num_particles num_levels lvl (n, avail) =
            (?ev # stored, (min C (length ?idx), avail'))
          \<and> stored = replicate (length ?idx - C)
                       (Bfs_fault (Write_out_of_bounds Temp_new_node_ids C))
          \<and> length avail' = C
          \<and> (\<forall>j < min C (length ?idx).
                avail' ! j =
                  Some (get_lnid_from_available_children_index u avail (?idx ! j)))"
      by (elim exE)
    define n' where "n' = min C (length ?idx)"
    from r st have it: "?it = (?ev # stored, (n', avail'))"
      and len': "length avail' = C"
      by (simp_all add: n'_def)
    from r have "stored = replicate (length ?idx - C)
        (Bfs_fault (Write_out_of_bounds Temp_new_node_ids C))"
      by (elim conjE)
    then have stored: "set stored \<subseteq> {Bfs_fault (Write_out_of_bounds Temp_new_node_ids C)}"
      by auto
    have n': "n' \<le> C" by (simp add: n'_def)
    from it have "length (snd (snd ?it)) = C" "fst (snd ?it) \<le> C"
      using n' len' by simp_all
    from "1.IH" [OF go(1) _ _ this, of "fst ?it"] go
    have later: "(\<forall>e \<in> set (fst ?later). within_capacity C e)
       \<and> fst (snd ?later) \<le> C \<and> length (snd (snd ?later)) = C"
      by simp
    have eq: "bfs_level_loop h u C num_particles num_levels lvl st =
        (?ev # stored @ fst ?later, snd ?later)"
      using go it by (simp add: bfs_level_loop_continue)
    have "within_capacity C e"
      if "e \<in> set (fst (bfs_level_loop h u C num_particles num_levels lvl st))" for e
    proof -
      from that consider "e = ?ev" | "e \<in> set stored" | "e \<in> set (fst ?later)"
        unfolding eq by auto
      then show ?thesis
      proof cases
        case 1
        with len n show ?thesis by simp
      next
        case 2
        with stored have "e = Bfs_fault (Write_out_of_bounds Temp_new_node_ids C)" by blast
        then show ?thesis by simp
      next
        case 3
        with later show ?thesis by simp
      qed
    qed
    with later show ?thesis
      unfolding eq by simp
  qed
qed

lemma bfs_query_within_capacity:
  assumes "1 \<le> C"
  shows "\<forall>e \<in> set (bfs_query h u C num_particles num_levels). within_capacity C e"
proof
  fix e
  assume e: "e \<in> set (bfs_query h u C num_particles num_levels)"
  let ?loop = "bfs_level_loop h u C num_particles num_levels 1
      (1, (replicate C None)[0 := Some 0])"
  have first: "fst (array_write Available_nodes_local_id (replicate C None) 0 0) = []"
    using assms by (simp add: array_write_def)
  have "length (snd (1::nat, (replicate C None)[0 := Some (0::nat)])) = C"
    and "fst (1::nat, (replicate C None)[0 := Some (0::nat)]) \<le> C"
    using assms by simp_all
  from bfs_level_loop_within_capacity [OF this, of h u num_particles num_levels 1]
  have loop: "\<forall>e \<in> set (fst ?loop). within_capacity C e"
    and n: "fst (snd ?loop) \<le> C" and len: "length (snd (snd ?loop)) = C"
    by simp_all
  have pass: "\<forall>e \<in> set (bfs_particle_pass u num_particles (snd ?loop)). within_capacity C e"
    using n len by (cases "snd ?loop") (simp add: bfs_particle_pass_def)
  from e consider "e = Bfs_at_query_init"
    | "e \<in> set (fst ?loop)"
    | "e \<in> set (bfs_particle_pass u num_particles (snd ?loop))"
    | "e = Bfs_at_query_exit"
    unfolding bfs_query_unfold first by auto
  then show "within_capacity C e"
  proof cases
    case 1
    then show ?thesis by simp
  next
    case 2
    with loop show ?thesis by simp
  next
    case 3
    with pass show ?thesis by simp
  next
    case 4
    then show ?thesis by simp
  qed
qed

text \<open>
  C1. The live count after a level never exceeds \<open>Max_selected_nodes\<close>, and the id array
  is never written outside its bounds (\<open>bfs_query_within_capacity\<close>, for every handler
  and a capacity of at least 1). But the gathering loop does store past the capacity of
  \<open>temp_new_node_ids\<close>: the kernel stores the selected id first and clamps the count
  afterwards, so every marked candidate that follows the \<open>Max_selected_nodes\<close>-th one is
  stored one past the end of the array (\<open>bfs_level_iteration_result\<close>). With capacity
  1, four particles in three levels and a handler that marks both children of the root,
  whatever the storage held before the query: the second child is stored to
  \<open>temp_new_node_ids [1]\<close>, and the query goes on with the first child alone.
\<close>

theorem bfs_gather_writes_past_capacity:
  "bfs_query bfs_select_all uninitialised 1 4 3 =
     [Bfs_at_query_init,
      Bfs_node_selector 1 1 [Some 0] 2,
      Bfs_fault (Write_out_of_bounds Temp_new_node_ids 1),
      Bfs_particle_processor 1 [Some 0] 2,
      Bfs_at_query_exit]"
  by code_simp

section \<open>The working set of a selector that keeps to its candidates\<close>

lemma live_ids_nth: "i < n \<Longrightarrow> n \<le> length avail \<Longrightarrow> live_ids n avail ! i = the (avail ! i)"
  by (simp add: live_ids_def)

lemma length_live_ids: "n \<le> length avail \<Longrightarrow> length (live_ids n avail) = n"
  by (simp add: live_ids_def)

lemma bfs_inv_read:
  assumes "bfs_inv C num_particles num_levels lvl (n, avail)" and "i < n"
  shows "array_read u a avail i = the (avail ! i)"
  using assms by (auto simp: bfs_inv_def array_read_def split: option.splits)

lemma bfs_inv_get_lnid:
  assumes "bfs_inv C num_particles num_levels lvl (n, avail)" and "i < 2 * n"
  shows "get_lnid_from_available_children_index u avail i = candidate_id avail i"
proof -
  from assms(2) have "i div 2 < n" by simp
  from bfs_inv_read [OF assms(1) this] show ?thesis
    by (simp add: get_lnid_from_available_children_index_def candidate_id_def
        BT_LOCAL_NODE_ID_OF_LEFT_CHILD_def)
qed

lemma bfs_inv_available_children:
  assumes "bfs_inv C num_particles num_levels lvl (n, avail)" and "0 < n"
  shows "bfs_available_children u num_particles num_levels lvl n avail =
     offered_count num_particles num_levels lvl n avail"
proof -
  from assms(2) have "n - 1 < n" by simp
  from bfs_inv_read [OF assms(1) this]
  have rd: "array_read u Available_nodes_local_id avail (n - 1) = the (avail ! (n - 1))" .
  from assms(2) have idx: "(2 * n - 1) div 2 = n - 1" "(2 * n - 1) mod 2 = 1"
    by presburger+
  have key: "binary_tree_get_children_last (binary_tree_key_init (lvl - 1) (the (avail ! (n - 1))))
      = \<lparr>level = lvl - 1 + 1, local_node_id = candidate_id avail (2 * n - 1)\<rparr>"
    unfolding candidate_id_def idx
    by (simp add: binary_tree_get_children_last_def binary_tree_key_init_def
        BT_LOCAL_NODE_ID_OF_LEFT_CHILD_def)
  show ?thesis
    unfolding bfs_available_children_def offered_count_def rd key [symmetric]
    by (simp add: Let_def)
qed

lemma bfs_inv_live:
  assumes "bfs_inv C num_particles num_levels lvl (n, avail)"
  shows "i < j \<Longrightarrow> j < n \<Longrightarrow> the (avail ! i) < the (avail ! j)"
    and "i < n \<Longrightarrow> the (avail ! i) * 2 ^ (num_levels - lvl) < num_particles"
proof -
  from assms have len: "n \<le> length avail"
    and sorted: "sorted_wrt (<) (live_ids n avail)"
    and used: "\<forall>a \<in> set (live_ids n avail). a * 2 ^ (num_levels - lvl) < num_particles"
    by (simp_all add: bfs_inv_def)
  show "the (avail ! i) < the (avail ! j)" if "i < j" "j < n"
  proof -
    from sorted_wrt_nth_less [OF sorted that(1)] that len
    have "live_ids n avail ! i < live_ids n avail ! j"
      by (simp add: length_live_ids)
    with that len show ?thesis by (simp add: live_ids_nth)
  qed
  show "the (avail ! i) * 2 ^ (num_levels - lvl) < num_particles" if "i < n"
  proof -
    from that len have "live_ids n avail ! i \<in> set (live_ids n avail)"
      by (simp add: length_live_ids)
    with used that len show ?thesis by (simp add: live_ids_nth)
  qed
qed

lemma candidate_id_increasing:
  assumes inv: "bfs_inv C num_particles num_levels lvl (n, avail)"
    and "i < j" and "j < 2 * n"
  shows "candidate_id avail i < candidate_id avail j"
proof (cases "i div 2 = j div 2")
  case True
  with assms(2) have "i mod 2 < j mod 2"
    by (metis div_mult_mod_eq nat_add_left_cancel_less)
  with True show ?thesis by (simp add: candidate_id_def)
next
  case False
  with assms(2) have "i div 2 < j div 2"
    by (meson div_le_mono less_imp_le_nat nat_less_le)
  moreover from assms(3) have "j div 2 < n" by simp
  ultimately have "the (avail ! (i div 2)) < the (avail ! (j div 2))"
    by (rule bfs_inv_live(1) [OF inv])
  then have "2 * the (avail ! (i div 2)) + 1 < 2 * the (avail ! (j div 2))"
    by simp
  moreover have "i mod 2 \<le> 1" by simp
  ultimately show ?thesis
    unfolding candidate_id_def by linarith
qed

lemma candidate_is_used:
  assumes inv: "bfs_inv C num_particles num_levels lvl (n, avail)"
    and lvl: "1 \<le> lvl" "lvl + 1 < num_levels"
    and i: "i < offered_count num_particles num_levels lvl n avail"
  shows "candidate_id avail i * 2 ^ (num_levels - 1 - lvl) < num_particles"
proof -
  let ?k = "num_levels - 1 - lvl"
  from lvl have k: "num_levels - lvl = Suc ?k" by simp
  from i have i2: "i < 2 * n" by (simp add: offered_count_def split: if_splits)
  then have d: "i div 2 < n" by simp
  let ?a = "the (avail ! (i div 2))"
  from bfs_inv_live(2) [OF inv d] have a: "?a * (2 * 2 ^ ?k) < num_particles"
    unfolding k by simp
  show ?thesis
  proof (cases "i mod 2 = 0")
    case True
    with a show ?thesis by (simp add: candidate_id_def mult.assoc)
  next
    case False
    then have odd: "i mod 2 = 1" by simp
    show ?thesis
    proof (cases "i = 2 * n - 1")
      case True
      with i have "binary_tree_is_node_used
               \<lparr>level = lvl - 1 + 1, local_node_id = candidate_id avail (2 * n - 1)\<rparr>
               num_levels num_particles"
        by (simp add: offered_count_def split: if_splits)
      with True lvl(1) show ?thesis
        by (simp add: binary_tree_is_node_used_def BT_LEAVES_PER_NODE_def)
    next
      case False
      with i2 odd have next_live: "i div 2 + 1 < n" by presburger
      let ?b = "the (avail ! (i div 2 + 1))"
      from bfs_inv_live(1) [OF inv _ next_live, of "i div 2"] have "?a + 1 \<le> ?b" by simp
      then have "(?a + 1) * (2 * 2 ^ ?k) \<le> ?b * (2 * 2 ^ ?k)"
        by (rule mult_le_mono1)
      also from bfs_inv_live(2) [OF inv next_live] have "\<dots> < num_particles"
        unfolding k by simp
      finally have "(?a + 1) * (2 * 2 ^ ?k) < num_particles" .
      moreover have "candidate_id avail i * 2 ^ ?k < (?a + 1) * (2 * 2 ^ ?k)"
        unfolding candidate_id_def odd by (simp add: algebra_simps)
      ultimately show ?thesis by simp
    qed
  qed
qed

lemma marked_candidates_offered:
  assumes "marks_offered_only h" and "i \<in> set (marked_candidates h C lvl avail cnt)"
  shows "i < cnt"
  using assms by (auto simp: marked_candidates_filter marks_offered_only_def)

lemma sorted_marked_candidates: "sorted_wrt (<) (marked_candidates h C lvl avail cnt)"
  unfolding marked_candidates_def by (rule sorted_wrt_filter) simp

lemma bfs_level_iteration_inv:
  assumes inv: "bfs_inv C num_particles num_levels lvl (n, avail)"
    and n: "0 < n" and lvl: "1 \<le> lvl" "lvl + 1 < num_levels"
    and h: "marks_offered_only h"
  shows "\<exists>stored st'.
     bfs_level_iteration h u C num_particles num_levels lvl (n, avail) =
       (Bfs_node_selector lvl n avail (offered_count num_particles num_levels lvl n avail)
          # stored, st')
     \<and> list_all stray_store stored
     \<and> bfs_inv C num_particles num_levels (lvl + 1) st'"
proof -
  let ?cnt = "offered_count num_particles num_levels lvl n avail"
  let ?idx = "marked_candidates h C lvl avail ?cnt"
  let ?n' = "min C (length ?idx)"
  let ?kept = "take ?n' ?idx"
  from inv have len: "length avail = C" by (simp add: bfs_inv_def)
  have ac: "bfs_available_children u num_particles num_levels lvl n avail = ?cnt"
    by (rule bfs_inv_available_children [OF inv n])
  have cnt: "?cnt \<le> 2 * n" by (simp add: offered_count_def)
  have idx: "i < ?cnt" if "i \<in> set ?idx" for i
    using h that by (rule marked_candidates_offered)
  from bfs_level_iteration_result [OF len, of h u num_particles num_levels lvl n]
  obtain stored avail' where
    r: "bfs_level_iteration h u C num_particles num_levels lvl (n, avail) =
          (Bfs_node_selector lvl n avail ?cnt # stored, (?n', avail'))
        \<and> stored = replicate (length ?idx - C)
                     (Bfs_fault (Write_out_of_bounds Temp_new_node_ids C))
        \<and> length avail' = C
        \<and> (\<forall>j < ?n'.
              avail' ! j =
                Some (get_lnid_from_available_children_index u avail (?idx ! j)))"
    unfolding ac by (elim exE)
  then have it: "bfs_level_iteration h u C num_particles num_levels lvl (n, avail) =
      (Bfs_node_selector lvl n avail ?cnt # stored, (?n', avail'))"
    and st: "stored = replicate (length ?idx - C)
        (Bfs_fault (Write_out_of_bounds Temp_new_node_ids C))"
    and lena: "length avail' = C"
    and nth: "\<forall>j < ?n'. avail' ! j =
        Some (get_lnid_from_available_children_index u avail (?idx ! j))"
    by simp_all
  from st have stray: "list_all stray_store stored"
    by (simp add: list_all_iff)
  have kept: "avail' ! j = Some (candidate_id avail (?idx ! j))" if "j < ?n'" for j
  proof -
    from that have "?idx ! j \<in> set ?idx" by simp
    from idx [OF this] cnt have "?idx ! j < 2 * n" by simp
    from bfs_inv_get_lnid [OF inv this, of u] nth that show ?thesis by simp
  qed
  have live: "live_ids ?n' avail' = map (candidate_id avail) ?kept"
  proof (rule nth_equalityI)
    show "length (live_ids ?n' avail') = length (map (candidate_id avail) ?kept)"
      using lena by (simp add: length_live_ids)
  next
    fix j assume "j < length (live_ids ?n' avail')"
    with lena have j: "j < ?n'" by (simp add: length_live_ids)
    then have "live_ids ?n' avail' ! j = the (avail' ! j)"
      using lena by (simp add: live_ids_nth)
    also have "\<dots> = candidate_id avail (?idx ! j)"
      using kept [OF j] by simp
    also have "\<dots> = map (candidate_id avail) ?kept ! j"
      using j by simp
    finally show "live_ids ?n' avail' ! j = map (candidate_id avail) ?kept ! j" .
  qed
  have sub: "set ?kept \<subseteq> set ?idx" by (rule set_take_subset)
  have "sorted_wrt (<) ?kept"
    using sorted_marked_candidates by (rule sorted_wrt_take)
  then have "sorted_wrt (\<lambda>i j. candidate_id avail i < candidate_id avail j) ?kept"
  proof (rule sorted_wrt_mono_rel [rotated])
    fix i j assume "i \<in> set ?kept" "j \<in> set ?kept" "i < j"
    with sub idx [of j] cnt have "i < j" "j < 2 * n" by auto
    then show "candidate_id avail i < candidate_id avail j"
      by (rule candidate_id_increasing [OF inv])
  qed
  then have sorted: "sorted_wrt (<) (live_ids ?n' avail')"
    unfolding live by (simp add: sorted_wrt_map)
  have used: "\<forall>a \<in> set (live_ids ?n' avail').
      a * 2 ^ (num_levels - (lvl + 1)) < num_particles"
  proof
    fix a assume "a \<in> set (live_ids ?n' avail')"
    then obtain i where i: "i \<in> set ?kept" and a: "a = candidate_id avail i"
      unfolding live by auto
    from i sub have "i \<in> set ?idx" by blast
    from idx [OF this] have "i < ?cnt" .
    then have "candidate_id avail i * 2 ^ (num_levels - 1 - lvl) < num_particles"
      by (rule candidate_is_used [OF inv lvl])
    then show "a * 2 ^ (num_levels - (lvl + 1)) < num_particles"
      by (simp add: a)
  qed
  have "\<forall>j < ?n'. avail' ! j \<noteq> None" using kept by simp
  then have "bfs_inv C num_particles num_levels (lvl + 1) (?n', avail')"
    using lena sorted used by (simp add: bfs_inv_def)
  with it stray show ?thesis by blast
qed

lemma offers_used_nodes_other [simp]:
  "offers_used_nodes u num_particles num_levels Bfs_at_query_init"
  "offers_used_nodes u num_particles num_levels Bfs_at_query_exit"
  "offers_used_nodes u num_particles num_levels (Bfs_fault f)"
  "offers_used_nodes u num_particles num_levels (Bfs_particle_processor n avail cnt)"
  by (simp_all add: offers_used_nodes_def)

lemma offers_used_nodes_stray_store:
  "stray_store e \<Longrightarrow> offers_used_nodes u num_particles num_levels e"
  by (cases e) simp_all

lemma bfs_inv_offers_used_nodes:
  assumes inv: "bfs_inv C num_particles num_levels lvl (n, avail)"
    and n: "0 < n" and lvl: "1 \<le> lvl" "lvl + 1 < num_levels"
  shows "offers_used_nodes u num_particles num_levels
     (Bfs_node_selector lvl n avail (offered_count num_particles num_levels lvl n avail))"
proof -
  let ?cnt = "offered_count num_particles num_levels lvl n avail"
  have "leftmost_leaf (bfs_load_node u lvl avail i) num_levels < num_particles"
    if "i < ?cnt" for i
  proof -
    from that have "i < 2 * n" by (simp add: offered_count_def split: if_splits)
    from bfs_inv_get_lnid [OF inv this]
    have ld: "bfs_load_node u lvl avail i = \<lparr>level = lvl, local_node_id = candidate_id avail i\<rparr>"
      by (simp add: bfs_load_node_def)
    from that have "candidate_id avail i * 2 ^ (num_levels - 1 - lvl) < num_particles"
      by (rule candidate_is_used [OF inv lvl])
    then show ?thesis
      by (simp add: ld leftmost_leaf_def BT_LEAVES_PER_NODE_def)
  qed
  then show ?thesis
    by (simp add: offers_used_nodes_def list_all_iff)
qed

lemma bfs_level_loop_inv:
  "bfs_inv C num_particles num_levels lvl st \<Longrightarrow> 1 \<le> lvl \<Longrightarrow> lvl < num_levels \<Longrightarrow>
   marks_offered_only h \<Longrightarrow>
     \<forall>e \<in> set (fst (bfs_level_loop h u C num_particles num_levels lvl st)).
        offers_used_nodes u num_particles num_levels e"
proof (induction h u C num_particles num_levels lvl st rule: bfs_level_loop.induct)
  case (1 h u C num_particles num_levels lvl st)
  obtain n avail where st: "st = (n, avail)" by (cases st)
  show ?case
  proof (cases "\<not> lvl < 64 \<or> fst st = 0 \<or> lvl + 1 = num_levels")
    case True
    then have "bfs_level_loop h u C num_particles num_levels lvl st = ([], st)"
      by (rule bfs_level_loop_stop)
    then show ?thesis by simp
  next
    case False
    then have go: "lvl < 64" "fst st \<noteq> 0" "lvl + 1 \<noteq> num_levels" by auto
    with "1.prems" st have n: "0 < n" and deeper: "lvl + 1 < num_levels" by simp_all
    let ?ev = "Bfs_node_selector lvl n avail (offered_count num_particles num_levels lvl n avail)"
    let ?it = "bfs_level_iteration h u C num_particles num_levels lvl st"
    let ?later = "bfs_level_loop h u C num_particles num_levels (lvl + 1) (snd ?it)"
    from "1.prems"(1) st have inv: "bfs_inv C num_particles num_levels lvl (n, avail)" by simp
    from bfs_level_iteration_inv [OF inv n "1.prems"(2) deeper "1.prems"(4), of u]
    obtain stored st' where
      r: "bfs_level_iteration h u C num_particles num_levels lvl (n, avail) = (?ev # stored, st')
          \<and> list_all stray_store stored
          \<and> bfs_inv C num_particles num_levels (lvl + 1) st'"
      by (elim exE)
    with st have it: "?it = (?ev # stored, st')"
      and stray: "list_all stray_store stored"
      and inv': "bfs_inv C num_particles num_levels (lvl + 1) (snd ?it)"
      by simp_all
    from "1.IH" [OF go(1) _ _ inv' _ _ "1.prems"(4), of "fst ?it"] go deeper
    have later: "\<forall>e \<in> set (fst ?later). offers_used_nodes u num_particles num_levels e"
      by simp
    have eq: "fst (bfs_level_loop h u C num_particles num_levels lvl st) =
        ?ev # stored @ fst ?later"
      using go it by (simp add: bfs_level_loop_continue)
    show ?thesis
    proof
      fix e
      assume "e \<in> set (fst (bfs_level_loop h u C num_particles num_levels lvl st))"
      then consider "e = ?ev" | "e \<in> set stored" | "e \<in> set (fst ?later)"
        unfolding eq by auto
      then show "offers_used_nodes u num_particles num_levels e"
      proof cases
        case 1
        with bfs_inv_offers_used_nodes [OF inv n "1.prems"(2) deeper, of u]
        show ?thesis by simp
      next
        case 2
        with stray have "stray_store e" by (simp add: list_all_iff)
        then show ?thesis by (rule offers_used_nodes_stray_store)
      next
        case 3
        with later show ?thesis by simp
      qed
    qed
  qed
qed

lemma bfs_inv_initial:
  assumes "1 \<le> C" and "1 \<le> num_particles"
  shows "bfs_inv C num_particles num_levels 1 (1, (replicate C None)[0 := Some 0])"
  using assms by (simp add: bfs_inv_def live_ids_def take_Suc_conv_app_nth)

lemma bfs_query_offers_used_nodes:
  assumes "2 \<le> num_levels" and "1 \<le> num_particles" and "1 \<le> C"
    and "marks_offered_only h"
  shows "\<forall>e \<in> set (bfs_query h u C num_particles num_levels).
            offers_used_nodes u num_particles num_levels e"
proof
  fix e
  assume e: "e \<in> set (bfs_query h u C num_particles num_levels)"
  let ?loop = "bfs_level_loop h u C num_particles num_levels 1
      (1, (replicate C None)[0 := Some 0])"
  have loop: "\<forall>e \<in> set (fst ?loop). offers_used_nodes u num_particles num_levels e"
  proof (rule bfs_level_loop_inv)
    show "bfs_inv C num_particles num_levels 1 (1, (replicate C None)[0 := Some 0])"
      using assms(3,2) by (rule bfs_inv_initial)
  qed (use assms in simp_all)
  have pass: "\<forall>e \<in> set (bfs_particle_pass u num_particles (snd ?loop)).
      offers_used_nodes u num_particles num_levels e"
    by (cases "snd ?loop") (simp add: bfs_particle_pass_def)
  from e consider "e = Bfs_at_query_init"
    | "e \<in> set (fst (array_write Available_nodes_local_id (replicate C None) 0 0))"
    | "e \<in> set (fst ?loop)"
    | "e \<in> set (bfs_particle_pass u num_particles (snd ?loop))"
    | "e = Bfs_at_query_exit"
    unfolding bfs_query_unfold by auto
  then show "offers_used_nodes u num_particles num_levels e"
  proof cases
    case 1
    then show ?thesis by simp
  next
    case 2
    with array_write_events [of Available_nodes_local_id "replicate C None" 0 0]
    have "stray_store e" by (simp add: list_all_iff)
    then show ?thesis by (rule offers_used_nodes_stray_store)
  next
    case 3
    with loop show ?thesis by simp
  next
    case 4
    with pass show ?thesis by simp
  next
    case 5
    then show ?thesis by simp
  qed
qed

section \<open>The tree of one particle\<close>

text \<open>
  With one particle the tree has one level, and the root is the particle. The
  depth-first engine processes it directly, for every handler and either strategy.
\<close>

lemma dfs_single_particle:
  "map_option dfs_trace (dfs_query strategy h 1 1) =
     Some [Dfs_at_query_init,
           Dfs_load_particle 0,
           Dfs_particle_processor 0
             (dfs_particle_processor h [Dfs_at_query_init, Dfs_load_particle 0] 0),
           Dfs_at_query_exit]"
proof -
  let ?b = "\<lambda>s. num_covered_particles s < 1"
  let ?c = "dfs_loop_body h strategy 1"
  let ?s = "?c dfs_initial_state"
  have c1: "num_covered_particles ?s = 1"
    by (simp add: covered_dfs_loop_body dfs_initial_state_def)
  have tr: "dfs_trace ?s =
      [Dfs_at_query_init, Dfs_load_particle 0,
       Dfs_particle_processor 0
         (dfs_particle_processor h [Dfs_at_query_init, Dfs_load_particle 0] 0)]"
    by (simp add: dfs_trace_particle_step dfs_initial_state_def)
  have "while_option ?b ?c dfs_initial_state = while_option ?b ?c ?s"
    by (subst while_option_unfold) (simp add: dfs_initial_state_def)
  also have "\<dots> = Some ?s"
    using c1 by (subst while_option_unfold) simp
  finally have "while_option ?b ?c dfs_initial_state = Some ?s" .
  with tr show ?thesis
    by (simp add: dfs_query_def)
qed

text \<open>
  The breadth-first engine starts its level loop at level 1 and leaves it at level
  \<open>effective_num_levels - 1\<close>, which is 0 here and is never met: for every handler the
  node selector is invoked at level 1.
\<close>

lemma bfs_single_particle_asks_node_selector:
  assumes "1 \<le> C"
  shows "\<exists>rest. bfs_query h u C 1 1 =
     Bfs_at_query_init # Bfs_node_selector 1 1 ((replicate C None)[0 := Some 0]) 1 # rest"
proof -
  let ?avail = "(replicate C None)[0 := Some 0]"
  let ?it = "bfs_level_iteration h u C 1 1 1 (1, ?avail)"
  let ?loop = "bfs_level_loop h u C 1 1 1 (1, ?avail)"
  have first: "fst (array_write Available_nodes_local_id (replicate C None) 0 0) = []"
    using assms by (simp add: array_write_def)
  have rd: "array_read u Available_nodes_local_id ?avail 0 = 0"
    using assms by (simp add: array_read_def)
  have "\<not> binary_tree_is_node_used
      (binary_tree_get_children_last (binary_tree_key_init 0 0)) 1 1"
    by (simp add: binary_tree_is_node_used_def binary_tree_get_children_last_def
        binary_tree_key_init_def BT_LEAVES_PER_NODE_def BT_LOCAL_NODE_ID_OF_LEFT_CHILD_def)
  with rd have ac: "bfs_available_children u 1 1 1 1 ?avail = 1"
    by (simp add: bfs_available_children_def Let_def)
  from bfs_level_iteration_events [of h u C 1 1 1 1 ?avail]
  obtain stored where it: "fst ?it = Bfs_node_selector 1 1 ?avail 1 # stored"
    unfolding ac by blast
  have "fst ?loop = fst ?it @ fst (bfs_level_loop h u C 1 1 (1 + 1) (snd ?it))"
    by (subst bfs_level_loop_continue) simp_all
  with it have "fst ?loop =
      Bfs_node_selector 1 1 ?avail 1 # stored @ fst (bfs_level_loop h u C 1 1 (1 + 1) (snd ?it))"
    by simp
  then show ?thesis
    unfolding bfs_query_unfold first by simp
qed

text \<open>
  C5. The tree of one particle is processed directly by the depth-first engine, not by
  the breadth-first one. With capacity 1 and a handler that selects nothing, the
  breadth-first query invokes the node selector at level 1 and ends without a particle
  pass: the one particle is never processed. (The candidate count 1 of that call comes
  from the existence test of node \<open>(1, 1)\<close>, a node below the tree; the call is made
  whatever the test says.) The depth-first query of the same tree loads particle 0 and
  nothing else.
\<close>

theorem bfs_single_particle_runs_node_levels:
  "bfs_query bfs_select_none uninitialised 1 1 1 =
     [Bfs_at_query_init, Bfs_node_selector 1 1 [Some 0] 1, Bfs_at_query_exit]
   \<and> map_option dfs_trace (dfs_query HIERARCHICAL_ITERATION_STRICT dfs_accept_everything 1 1) =
     Some [Dfs_at_query_init, Dfs_load_particle 0, Dfs_particle_processor 0 True,
           Dfs_at_query_exit]"
  by code_simp

section \<open>Nodes outside the particle range\<close>

lemma dfs_visited_nodes_step:
  "dfs_visited_nodes (dfs_loop_body h strategy num_levels s) =
     dfs_visited_nodes s @
       (if level (current_node s) + 1 = num_levels then []
        else [current_node s, current_node s])"
proof (cases "level (current_node s) + 1 = num_levels")
  case True
  then show ?thesis
    by (simp add: dfs_visited_nodes_def dfs_trace_particle_step map_filter_app
        map_filter_simps)
next
  case False
  then show ?thesis
    by (simp add: dfs_visited_nodes_def dfs_trace_node_step map_filter_app
        map_filter_simps)
qed

lemma dfs_visit_inv_step:
  assumes inv: "dfs_visit_inv num_particles num_levels s"
    and run: "num_covered_particles s < num_particles"
    and fit: "num_particles \<le> 2 ^ (num_levels - 1)"
  shows "dfs_visit_inv num_particles num_levels (dfs_loop_body h strategy num_levels s)"
proof -
  from inv have dinv: "dfs_inv num_levels s"
    and old: "list_all (\<lambda>node. leftmost_leaf node num_levels < num_particles)
        (dfs_visited_nodes s)"
    by (simp_all add: dfs_visit_inv_def)
  from dinv run have "leftmost_leaf (current_node s) num_levels < num_particles"
    by (simp add: dfs_inv_def)
  with old have "list_all (\<lambda>node. leftmost_leaf node num_levels < num_particles)
      (dfs_visited_nodes (dfs_loop_body h strategy num_levels s))"
    by (simp add: dfs_visited_nodes_step)
  with dfs_inv_step [OF dinv run fit] show ?thesis
    by (simp add: dfs_visit_inv_def)
qed

lemma dfs_query_visits_used_nodes:
  assumes "1 \<le> num_levels" and fit: "num_particles \<le> 2 ^ (num_levels - 1)"
  shows "\<exists>t. dfs_query strategy h num_particles num_levels = Some t
           \<and> list_all (\<lambda>node. leftmost_leaf node num_levels < num_particles)
                (dfs_visited_nodes t)"
proof -
  let ?b = "\<lambda>s. num_covered_particles s < num_particles"
  let ?c = "dfs_loop_body h strategy num_levels"
  from dfs_while_terminates [OF assms, of h strategy]
  obtain t where t: "while_option ?b ?c dfs_initial_state = Some t" ..
  have "dfs_visit_inv num_particles num_levels t"
  proof (rule while_option_rule [where P = "dfs_visit_inv num_particles num_levels", OF _ t])
    have "dfs_visited_nodes dfs_initial_state = []"
      by (simp add: dfs_visited_nodes_def dfs_initial_state_def map_filter_simps)
    with dfs_inv_initial [OF assms(1)]
    show "dfs_visit_inv num_particles num_levels dfs_initial_state"
      by (simp add: dfs_visit_inv_def)
  next
    fix s
    assume "dfs_visit_inv num_particles num_levels s"
      and "num_covered_particles s < num_particles"
    then show "dfs_visit_inv num_particles num_levels (?c s)"
      using fit by (rule dfs_visit_inv_step)
  qed
  then have "list_all (\<lambda>node. leftmost_leaf node num_levels < num_particles)
      (dfs_visited_nodes (t\<lparr>dfs_trace := dfs_trace t @ [Dfs_at_query_exit]\<rparr>))"
    by (simp add: dfs_visit_inv_def dfs_visited_nodes_def map_filter_app map_filter_simps)
  moreover have "dfs_query strategy h num_particles num_levels
      = Some (t\<lparr>dfs_trace := dfs_trace t @ [Dfs_at_query_exit]\<rparr>)"
    by (simp add: dfs_query_def t)
  ultimately show ?thesis by blast
qed

text \<open>
  C4. With six particles the tree has four levels and eight particle slots; node
  \<open>(2, 3)\<close>, whose leftmost slot is 6, is the one node of the deepest node level outside
  the particle range.

  The depth-first query never loads this node nor passes it to the node selector,
  whatever the handler decides and whatever the strategy, and it terminates.

  The breadth-first query never offers this node to a node selector that keeps to its
  candidates, whatever that selector marks among them, whatever the capacity (of at
  least 1) and whatever the storage held before the query; this covers the levels that
  follow a level at which more candidates were marked than the capacity holds.
\<close>

theorem no_unused_last_level_node_with_six_particles:
  assumes "marks_offered_only bfs_h" and "1 \<le> C"
  shows "(\<forall>e \<in> set (bfs_query bfs_h uninitialised C 6 4).
            \<forall>node \<in> set (bfs_offered_nodes uninitialised e).
              \<not> unused_last_level_node 6 4 node)
       \<and> (\<exists>t. dfs_query strategy dfs_h 6 4 = Some t
              \<and> (\<forall>node \<in> set (dfs_visited_nodes t). \<not> unused_last_level_node 6 4 node))"
proof (intro conjI ballI)
  fix e node
  assume e: "e \<in> set (bfs_query bfs_h uninitialised C 6 4)"
    and node: "node \<in> set (bfs_offered_nodes uninitialised e)"
  have "(2::nat) \<le> 4" and "(1::nat) \<le> 6" by simp_all
  from bfs_query_offers_used_nodes [OF this assms(2,1), of uninitialised] e
  have "offers_used_nodes uninitialised 6 4 e" by blast
  with node have "leftmost_leaf node 4 < 6"
    by (simp add: offers_used_nodes_def list_all_iff)
  then show "\<not> unused_last_level_node 6 4 node"
    by (simp add: unused_last_level_node_def)
next
  have "(1::nat) \<le> 4" and "(6::nat) \<le> 2 ^ (4 - 1)" by simp_all
  from dfs_query_visits_used_nodes [OF this, of strategy dfs_h]
  obtain t where t: "dfs_query strategy dfs_h 6 4 = Some t"
    and used: "list_all (\<lambda>node. leftmost_leaf node 4 < 6) (dfs_visited_nodes t)"
    by blast
  from used have "\<forall>node \<in> set (dfs_visited_nodes t). \<not> unused_last_level_node 6 4 node"
    by (auto simp: list_all_iff unused_last_level_node_def)
  with t show "\<exists>t. dfs_query strategy dfs_h 6 4 = Some t
          \<and> (\<forall>node \<in> set (dfs_visited_nodes t). \<not> unused_last_level_node 6 4 node)"
    by blast
qed

text \<open>Two breadth-first queries whose handler marks every candidate it is offered, one
  with room for all of them and one with a capacity of 1, and a depth-first query whose
  handler accepts everything.\<close>

theorem no_unused_last_level_node_with_six_particles_witness:
  "marks_offered_only bfs_select_all
   \<and> bfs_query bfs_select_all zeroed_storage 4 6 4 =
     [Bfs_at_query_init,
      Bfs_node_selector 1 1 [Some 0, None, None, None] 2,
      Bfs_node_selector 2 2 [Some 0, Some 1, None, None] 3,
      Bfs_particle_processor 3 [Some 0, Some 1, Some 2, None] 6,
      Bfs_at_query_exit]
   \<and> bfs_offered_nodes zeroed_storage (Bfs_node_selector 2 2 [Some 0, Some 1, None, None] 3) =
     [\<lparr>level = 2, local_node_id = 0\<rparr>, \<lparr>level = 2, local_node_id = 1\<rparr>,
      \<lparr>level = 2, local_node_id = 2\<rparr>]
   \<and> unused_last_level_node 6 4 \<lparr>level = 2, local_node_id = 3\<rparr>
   \<and> list_all
        (\<lambda>e. list_all (\<lambda>node. \<not> unused_last_level_node 6 4 node)
               (bfs_offered_nodes zeroed_storage e))
        (bfs_query bfs_select_all zeroed_storage 4 6 4)
   \<and> list_all
        (\<lambda>e. list_all (\<lambda>node. \<not> unused_last_level_node 6 4 node)
               (bfs_offered_nodes zeroed_storage e))
        (bfs_query bfs_select_all zeroed_storage 1 6 4)
   \<and> (\<exists>t. dfs_query HIERARCHICAL_ITERATION_STRICT dfs_accept_everything 6 4 = Some t
          \<and> list_all (\<lambda>node. \<not> unused_last_level_node 6 4 node) (dfs_visited_nodes t))"
proof -
  have h: "marks_offered_only bfs_select_all"
    by (simp add: marks_offered_only_def bfs_select_all_def)
  have tr: "bfs_query bfs_select_all zeroed_storage 4 6 4 =
     [Bfs_at_query_init,
      Bfs_node_selector 1 1 [Some 0, None, None, None] 2,
      Bfs_node_selector 2 2 [Some 0, Some 1, None, None] 3,
      Bfs_particle_processor 3 [Some 0, Some 1, Some 2, None] 6,
      Bfs_at_query_exit]"
    by code_simp
  have off: "bfs_offered_nodes zeroed_storage
        (Bfs_node_selector 2 2 [Some 0, Some 1, None, None] 3) =
     [\<lparr>level = 2, local_node_id = 0\<rparr>, \<lparr>level = 2, local_node_id = 1\<rparr>,
      \<lparr>level = 2, local_node_id = 2\<rparr>]"
    by code_simp
  have un: "unused_last_level_node 6 4 \<lparr>level = 2, local_node_id = 3\<rparr>"
    by (simp add: unused_last_level_node_def leftmost_leaf_def BT_LEAVES_PER_NODE_def)
  have "(1::nat) \<le> 4" by simp
  note roomy = no_unused_last_level_node_with_six_particles
      [OF h this, of zeroed_storage HIERARCHICAL_ITERATION_STRICT dfs_accept_everything]
  have "(1::nat) \<le> 1" by simp
  note tight = no_unused_last_level_node_with_six_particles
      [OF h this, of zeroed_storage HIERARCHICAL_ITERATION_STRICT dfs_accept_everything]
  from roomy have b: "list_all
        (\<lambda>e. list_all (\<lambda>node. \<not> unused_last_level_node 6 4 node)
               (bfs_offered_nodes zeroed_storage e))
        (bfs_query bfs_select_all zeroed_storage 4 6 4)"
    unfolding list_all_iff by (rule conjunct1)
  from tight have c: "list_all
        (\<lambda>e. list_all (\<lambda>node. \<not> unused_last_level_node 6 4 node)
               (bfs_offered_nodes zeroed_storage e))
        (bfs_query bfs_select_all zeroed_storage 1 6 4)"
    unfolding list_all_iff by (rule conjunct1)
  from roomy have d: "\<exists>t. dfs_query HIERARCHICAL_ITERATION_STRICT dfs_accept_everything 6 4 = Some t
          \<and> list_all (\<lambda>node. \<not> unused_last_level_node 6 4 node) (dfs_visited_nodes t)"
    unfolding list_all_iff by (rule conjunct2)
  from h tr off un b c d show ?thesis by (intro conjI)
qed

text \<open>
  Without the condition on the selector the breadth-first half fails. The kernel does
  not compare the marked entries of \<open>selection_map\<close> with the number of candidates. With
  a capacity of 2, a selector that marks, at level 1, the second candidate and the entry
  after the two candidates makes the live nodes of level 1 the node \<open>(1, 1)\<close> followed by
  a node read from an entry of the id array that was never written. Node \<open>(1, 1)\<close> is
  then no longer the last live node, so its last child \<open>(2, 3)\<close> is not the rightmost
  candidate of level 2, the only one the existence test looks at, and is offered to the
  node selector.
\<close>

theorem bfs_unoffered_mark_counterexample:
  "\<not> marks_offered_only bfs_mark_unoffered
   \<and> bfs_query bfs_mark_unoffered zeroed_storage 2 6 4 =
       [Bfs_at_query_init,
        Bfs_node_selector 1 1 [Some 0, None] 2,
        Bfs_node_selector 2 2 [Some 1, Some 0] 4,
        Bfs_at_query_exit]
   \<and> bfs_offered_nodes zeroed_storage (Bfs_node_selector 2 2 [Some 1, Some 0] 4) =
       [\<lparr>level = 2, local_node_id = 2\<rparr>, \<lparr>level = 2, local_node_id = 3\<rparr>,
        \<lparr>level = 2, local_node_id = 0\<rparr>, \<lparr>level = 2, local_node_id = 1\<rparr>]
   \<and> unused_last_level_node 6 4 \<lparr>level = 2, local_node_id = 3\<rparr>
   \<and> \<not> list_all
        (\<lambda>e. list_all (\<lambda>node. \<not> unused_last_level_node 6 4 node)
               (bfs_offered_nodes zeroed_storage e))
        (bfs_query bfs_mark_unoffered zeroed_storage 2 6 4)"
proof -
  have "bfs_node_selector bfs_mark_unoffered 1 [] 2 2"
    by (simp add: bfs_mark_unoffered_def)
  then have h: "\<not> marks_offered_only bfs_mark_unoffered"
    unfolding marks_offered_only_def by (metis less_irrefl)
  have tr: "bfs_query bfs_mark_unoffered zeroed_storage 2 6 4 =
       [Bfs_at_query_init,
        Bfs_node_selector 1 1 [Some 0, None] 2,
        Bfs_node_selector 2 2 [Some 1, Some 0] 4,
        Bfs_at_query_exit]"
    by code_simp
  have off: "bfs_offered_nodes zeroed_storage (Bfs_node_selector 2 2 [Some 1, Some 0] 4) =
       [\<lparr>level = 2, local_node_id = 2\<rparr>, \<lparr>level = 2, local_node_id = 3\<rparr>,
        \<lparr>level = 2, local_node_id = 0\<rparr>, \<lparr>level = 2, local_node_id = 1\<rparr>]"
    by code_simp
  have un: "unused_last_level_node 6 4 \<lparr>level = 2, local_node_id = 3\<rparr>"
    by (simp add: unused_last_level_node_def leftmost_leaf_def BT_LEAVES_PER_NODE_def)
  have "\<not> list_all
        (\<lambda>e. list_all (\<lambda>node. \<not> unused_last_level_node 6 4 node)
               (bfs_offered_nodes zeroed_storage e))
        (bfs_query bfs_mark_unoffered zeroed_storage 2 6 4)"
    unfolding tr using off un by simp
  with h tr off un show ?thesis by (intro conjI)
qed

text \<open>What the entry that was never written holds does not matter: whatever the storage
  held before the query, the second candidate offered at level 2 is node \<open>(2, 3)\<close>.\<close>

lemma bfs_unoffered_mark_any_storage:
  "\<exists>cnt \<ge> 3.
     bfs_query bfs_mark_unoffered u 2 6 4 =
       [Bfs_at_query_init,
        Bfs_node_selector 1 1 [Some 0, None] 2,
        Bfs_node_selector 2 2 [Some 1, Some (2 * u Available_nodes_local_id 1)] cnt,
        Bfs_at_query_exit]
     \<and> bfs_offered_nodes u
          (Bfs_node_selector 2 2 [Some 1, Some (2 * u Available_nodes_local_id 1)] cnt) ! 1
         = \<lparr>level = 2, local_node_id = 3\<rparr>"
proof -
  let ?g = "u Available_nodes_local_id 1"
  let ?cnt = "if \<not> ((?g * 2 + 0) * 2 + 1) * 2 \<le> 5 then 2 * 2 - 1 else 2 * 2 :: nat"
  have tr: "bfs_query bfs_mark_unoffered u 2 6 4 =
       [Bfs_at_query_init,
        Bfs_node_selector 1 1 [Some 0, None] 2,
        Bfs_node_selector 2 2 [Some 1, Some (?g * 2 + 0)] ?cnt,
        Bfs_at_query_exit]"
    by code_simp
  have ld: "bfs_load_node u 2 [Some 1, Some (2 * ?g)] 1 = \<lparr>level = 2, local_node_id = 3\<rparr>"
    by (simp add: bfs_load_node_def get_lnid_from_available_children_index_def
        array_read_def BT_LOCAL_NODE_ID_OF_LEFT_CHILD_def)
  have cnt: "3 \<le> ?cnt" by simp
  then have "bfs_offered_nodes u (Bfs_node_selector 2 2 [Some 1, Some (2 * ?g)] ?cnt) ! 1
      = \<lparr>level = 2, local_node_id = 3\<rparr>"
    using ld by simp
  moreover have "bfs_query bfs_mark_unoffered u 2 6 4 =
       [Bfs_at_query_init,
        Bfs_node_selector 1 1 [Some 0, None] 2,
        Bfs_node_selector 2 2 [Some 1, Some (2 * ?g)] ?cnt,
        Bfs_at_query_exit]"
    unfolding tr by (simp add: mult.commute)
  ultimately show ?thesis
    using cnt by blast
qed

end
